theory Spec2Isabelle
  imports Complex_Main "HOL-Library.Product_Lexorder"
begin

section \<open>Arrays and Python primitives\<close>

text \<open>
  The two functions of \<^verbatim>\<open>src/src/ViteBetti.py\<close> work on numpy arrays. An array is
  modelled by its shape and its elements in row-major order; the elements are rationals
  (the floats 0.0 and 1.0 that the code writes, and whatever numbers the caller stores;
  a boolean array holds 0 and 1). NaN and the infinities are outside the model.
  Every exception the code can raise is a value of \<open>error\<close>.
\<close>

datatype error = ValueError | IndexError | ZeroDivisionError

record ndarray =
  shape :: "nat list"
  data :: "rat list"

text \<open>
  A numpy array always holds as many elements as its shape says. The properties that
  depend on the values read from the input assume it.
\<close>

definition wf_ndarray :: "ndarray \<Rightarrow> bool" where
  "wf_ndarray a = (length (data a) = prod_list (shape a))"

definition ebind :: "error + 'a \<Rightarrow> ('a \<Rightarrow> error + 'b) \<Rightarrow> error + 'b" where
  "ebind m f = (case m of Inl e \<Rightarrow> Inl e | Inr x \<Rightarrow> f x)"

text \<open>A \<^verbatim>\<open>for\<close> loop over a list whose body may raise: the first exception ends it.\<close>

fun efold :: "('a \<Rightarrow> 's \<Rightarrow> error + 's) \<Rightarrow> 'a list \<Rightarrow> 's \<Rightarrow> error + 's" where
  "efold f [] s = Inr s"
| "efold f (x # xs) s = (case f x s of Inl e \<Rightarrow> Inl e | Inr s' \<Rightarrow> efold f xs s')"

text \<open>\<^verbatim>\<open>xrange(n)\<close> for a Python integer \<open>n\<close>: empty when \<open>n \<le> 0\<close>.\<close>

definition xrange :: "int \<Rightarrow> nat list" where
  "xrange n = [0..<nat n]"

text \<open>\<^verbatim>\<open>a % b\<close> on Python integers: the result has the sign of \<open>b\<close>.\<close>

definition pymod :: "int \<Rightarrow> int \<Rightarrow> error + int" where
  "pymod a b = (if b = 0 then Inl ZeroDivisionError else Inr (a mod b))"

text \<open>\<^verbatim>\<open>np.zeros(dims)\<close>: a negative dimension raises ValueError.\<close>

definition np_zeros :: "int list \<Rightarrow> error + ndarray" where
  "np_zeros dims =
     (if list_ex (\<lambda>d. d < 0) dims then Inl ValueError
      else Inr \<lparr>shape = map nat dims, data = replicate (prod_list (map nat dims)) 0\<rparr>)"

text \<open>
  One index of a numpy subscript on an axis of length \<open>n\<close>: a negative index counts from
  the end, anything outside \<open>-n \<le> i < n\<close> raises IndexError.
\<close>

definition axis_index :: "nat \<Rightarrow> int \<Rightarrow> error + nat" where
  "axis_index n i =
     (if 0 \<le> i \<and> i < int n then Inr (nat i)
      else if - int n \<le> i \<and> i < 0 then Inr (nat (i + int n))
      else Inl IndexError)"

text \<open>The position of element \<open>[i, j, k]\<close> of a three-dimensional array.\<close>

definition offset3 :: "nat list \<Rightarrow> int \<times> int \<times> int \<Rightarrow> error + nat" where
  "offset3 sh ix =
     (case (sh, ix) of
        ([nx, ny, nz], (i, j, k)) \<Rightarrow>
          ebind (axis_index nx i) (\<lambda>i'.
          ebind (axis_index ny j) (\<lambda>j'.
          ebind (axis_index nz k) (\<lambda>k'.
            Inr ((i' * ny + j') * nz + k'))))
      | _ \<Rightarrow> Inl IndexError)"

text \<open>\<^verbatim>\<open>a[i,j,k]\<close> and \<^verbatim>\<open>a[i,j,k] = v\<close>.\<close>

definition getitem :: "ndarray \<Rightarrow> int \<times> int \<times> int \<Rightarrow> error + rat" where
  "getitem a ix = ebind (offset3 (shape a) ix) (\<lambda>p. Inr (data a ! p))"

definition setitem :: "ndarray \<Rightarrow> int \<times> int \<times> int \<Rightarrow> rat \<Rightarrow> error + ndarray" where
  "setitem a ix v = ebind (offset3 (shape a) ix) (\<lambda>p. Inr (a\<lparr>data := (data a)[p := v]\<rparr>))"

text \<open>The truth value of a number in a condition, and the test \<^verbatim>\<open>== 1\<close>.\<close>

definition truthy :: "error + rat \<Rightarrow> error + bool" where
  "truthy m = ebind m (\<lambda>v. Inr (v \<noteq> 0))"

definition is_one :: "error + rat \<Rightarrow> error + bool" where
  "is_one m = ebind m (\<lambda>v. Inr (v = 1))"

text \<open>\<^verbatim>\<open>c1 and c2 and ...\<close> in a condition: evaluation stops at the first false operand.\<close>

fun py_and :: "(error + bool) list \<Rightarrow> error + bool" where
  "py_and [] = Inr True"
| "py_and (c # cs) = (case c of Inl e \<Rightarrow> Inl e | Inr b \<Rightarrow> if b then py_and cs else Inr False)"

section \<open>CubeMap\<close>

text \<open>
  The six neighbour reads of the passes, with the extents \<open>N = (Nx, Ny, Nz)\<close>:
  \<^verbatim>\<open>cubemap[(i-1)%Nx,j,k]\<close>, \<^verbatim>\<open>cubemap[(i+1)%Nx,j,k]\<close>, and the same along y and z.
\<close>

definition x_lo :: "int \<times> int \<times> int \<Rightarrow> ndarray \<Rightarrow> int \<times> int \<times> int \<Rightarrow> error + rat" where
  "x_lo N cm ix = (case (N, ix) of ((Nx, Ny, Nz), (i, j, k)) \<Rightarrow>
     ebind (pymod (i - 1) Nx) (\<lambda>p. getitem cm (p, j, k)))"

definition x_hi :: "int \<times> int \<times> int \<Rightarrow> ndarray \<Rightarrow> int \<times> int \<times> int \<Rightarrow> error + rat" where
  "x_hi N cm ix = (case (N, ix) of ((Nx, Ny, Nz), (i, j, k)) \<Rightarrow>
     ebind (pymod (i + 1) Nx) (\<lambda>p. getitem cm (p, j, k)))"

definition y_lo :: "int \<times> int \<times> int \<Rightarrow> ndarray \<Rightarrow> int \<times> int \<times> int \<Rightarrow> error + rat" where
  "y_lo N cm ix = (case (N, ix) of ((Nx, Ny, Nz), (i, j, k)) \<Rightarrow>
     ebind (pymod (j - 1) Ny) (\<lambda>p. getitem cm (i, p, k)))"

definition y_hi :: "int \<times> int \<times> int \<Rightarrow> ndarray \<Rightarrow> int \<times> int \<times> int \<Rightarrow> error + rat" where
  "y_hi N cm ix = (case (N, ix) of ((Nx, Ny, Nz), (i, j, k)) \<Rightarrow>
     ebind (pymod (j + 1) Ny) (\<lambda>p. getitem cm (i, p, k)))"

definition z_lo :: "int \<times> int \<times> int \<Rightarrow> ndarray \<Rightarrow> int \<times> int \<times> int \<Rightarrow> error + rat" where
  "z_lo N cm ix = (case (N, ix) of ((Nx, Ny, Nz), (i, j, k)) \<Rightarrow>
     ebind (pymod (k - 1) Nz) (\<lambda>p. getitem cm (i, j, p)))"

definition z_hi :: "int \<times> int \<times> int \<Rightarrow> ndarray \<Rightarrow> int \<times> int \<times> int \<Rightarrow> error + rat" where
  "z_hi N cm ix = (case (N, ix) of ((Nx, Ny, Nz), (i, j, k)) \<Rightarrow>
     ebind (pymod (k + 1) Nz) (\<lambda>p. getitem cm (i, j, p)))"

text \<open>
  The three nested \<^verbatim>\<open>for\<close> loops that every pass shares: \<open>i\<close> outermost, \<open>k\<close> innermost,
  the body run on the array as the earlier iterations left it.
\<close>

definition scan3 ::
  "int \<times> int \<times> int \<Rightarrow> (int \<times> int \<times> int \<Rightarrow> 's \<Rightarrow> error + 's) \<Rightarrow> 's \<Rightarrow> error + 's" where
  "scan3 N body s = (case N of (Nx, Ny, Nz) \<Rightarrow>
     efold (\<lambda>i. efold (\<lambda>j. efold (\<lambda>k. body (int i, int j, int k)) (xrange Nz)) (xrange Ny))
       (xrange Nx) s)"

text \<open>Line 13: \<^verbatim>\<open>if arr[i,j,k]: cubemap[i*2,j*2,k*2] = 1\<close>.\<close>

definition vertex_body :: "ndarray \<Rightarrow> int \<times> int \<times> int \<Rightarrow> ndarray \<Rightarrow> error + ndarray" where
  "vertex_body arr ix cm = (case ix of (i, j, k) \<Rightarrow>
     ebind (truthy (getitem arr (i, j, k))) (\<lambda>b.
       if b then setitem cm (i * 2, j * 2, k * 2) 1 else Inr cm))"

text \<open>Lines 19 to 22.\<close>

definition edge_body :: "int \<times> int \<times> int \<Rightarrow> int \<times> int \<times> int \<Rightarrow> ndarray \<Rightarrow> error + ndarray" where
  "edge_body N ix cm =
     ebind (getitem cm ix) (\<lambda>c.
       if c = 0 then
         ebind (py_and [truthy (x_lo N cm ix), truthy (x_hi N cm ix)]) (\<lambda>b1.
           if b1 then setitem cm ix 1
           else ebind (py_and [truthy (y_lo N cm ix), truthy (y_hi N cm ix)]) (\<lambda>b2.
             if b2 then setitem cm ix 1
             else ebind (py_and [truthy (z_lo N cm ix), truthy (z_hi N cm ix)]) (\<lambda>b3.
               if b3 then setitem cm ix 1 else Inr cm)))
       else Inr cm)"

text \<open>Lines 28 to 31; the third operand of the first condition is compared with 1.\<close>

definition face_body :: "int \<times> int \<times> int \<Rightarrow> int \<times> int \<times> int \<Rightarrow> ndarray \<Rightarrow> error + ndarray" where
  "face_body N ix cm =
     ebind (getitem cm ix) (\<lambda>c.
       if c = 0 then
         ebind (py_and [truthy (x_lo N cm ix), truthy (x_hi N cm ix),
                        is_one (y_lo N cm ix), truthy (y_hi N cm ix)]) (\<lambda>b1.
           if b1 then setitem cm ix 1
           else ebind (py_and [truthy (y_lo N cm ix), truthy (y_hi N cm ix),
                               truthy (z_lo N cm ix), truthy (z_hi N cm ix)]) (\<lambda>b2.
             if b2 then setitem cm ix 1
             else ebind (py_and [truthy (z_lo N cm ix), truthy (z_hi N cm ix),
                                 truthy (x_lo N cm ix), truthy (x_hi N cm ix)]) (\<lambda>b3.
               if b3 then setitem cm ix 1 else Inr cm)))
       else Inr cm)"

text \<open>Lines 37 to 40.\<close>

definition cube_body :: "int \<times> int \<times> int \<Rightarrow> int \<times> int \<times> int \<Rightarrow> ndarray \<Rightarrow> error + ndarray" where
  "cube_body N ix cm =
     ebind (getitem cm ix) (\<lambda>c.
       if c = 0 then
         ebind (py_and [truthy (x_lo N cm ix), truthy (x_hi N cm ix)]) (\<lambda>b1.
           if b1 then
             ebind (py_and [truthy (y_lo N cm ix), truthy (y_hi N cm ix)]) (\<lambda>b2.
               if b2 then
                 ebind (py_and [truthy (z_lo N cm ix), truthy (z_hi N cm ix)]) (\<lambda>b3.
                   if b3 then setitem cm ix 1 else Inr cm)
               else Inr cm)
           else Inr cm)
       else Inr cm)"

text \<open>
  \<^verbatim>\<open>CubeMap(arr)\<close>, called \<open>build_complex\<close> in the specification. Unpacking a shape that
  has not exactly three entries raises ValueError.
\<close>

definition CubeMap :: "ndarray \<Rightarrow> error + ndarray" where
  "CubeMap arr =
     (case shape arr of
        [nx, ny, nz] \<Rightarrow>
          (let N = (2 * int nx - 1, 2 * int ny - 1, 2 * int nz - 1) in
           case N of (Nx, Ny, Nz) \<Rightarrow>
             ebind (np_zeros [Nx, Ny, Nz]) (\<lambda>cubemap.
             ebind (scan3 (int nx, int ny, int nz) (vertex_body arr) cubemap) (\<lambda>cubemap.
             ebind (scan3 N (edge_body N) cubemap) (\<lambda>cubemap.
             ebind (scan3 N (face_body N) cubemap) (\<lambda>cubemap.
             scan3 N (cube_body N) cubemap)))))
      | _ \<Rightarrow> Inl ValueError)"

section \<open>EulerCharacteristic\_seq\<close>

text \<open>Lines 51 to 53.\<close>

definition euler_body :: "ndarray \<Rightarrow> int \<times> int \<times> int \<Rightarrow> int \<Rightarrow> error + int" where
  "euler_body A ix chi = (case ix of (x, y, z) \<Rightarrow>
     ebind (is_one (getitem A (x, y, z))) (\<lambda>b.
       if b then
         ebind (pymod (x + y + z) 2) (\<lambda>r. if r = 0 then Inr (chi + 1) else Inr (chi - 1))
       else Inr chi))"

text \<open>\<^verbatim>\<open>EulerCharacteristic_seq(A)\<close>, called \<open>euler_characteristic\<close> in the specification.\<close>

definition EulerCharacteristic_seq :: "ndarray \<Rightarrow> error + int" where
  "EulerCharacteristic_seq A =
     (case shape A of
        [nx, ny, nz] \<Rightarrow> scan3 (int nx, int ny, int nz) (euler_body A) 0
      | _ \<Rightarrow> Inl ValueError)"

section \<open>The variant that reads a snapshot\<close>

text \<open>
  The specification contrasts the in-place scan of the code with a scan in which every
  condition of a pass is read from a snapshot of the array taken when the pass starts, the
  assignments still going to the array itself. The bodies below are the bodies of the
  code with the reads redirected to \<open>snap\<close>; \<open>CubeMap_jacobi\<close> runs every pass on a
  snapshot, \<open>CubeMap_jacobi_ef\<close> only the edge and the face pass.
\<close>

definition edge_body_snap ::
  "int \<times> int \<times> int \<Rightarrow> ndarray \<Rightarrow> int \<times> int \<times> int \<Rightarrow> ndarray \<Rightarrow> error + ndarray" where
  "edge_body_snap N snap ix cm =
     ebind (getitem snap ix) (\<lambda>c.
       if c = 0 then
         ebind (py_and [truthy (x_lo N snap ix), truthy (x_hi N snap ix)]) (\<lambda>b1.
           if b1 then setitem cm ix 1
           else ebind (py_and [truthy (y_lo N snap ix), truthy (y_hi N snap ix)]) (\<lambda>b2.
             if b2 then setitem cm ix 1
             else ebind (py_and [truthy (z_lo N snap ix), truthy (z_hi N snap ix)]) (\<lambda>b3.
               if b3 then setitem cm ix 1 else Inr cm)))
       else Inr cm)"

definition face_body_snap ::
  "int \<times> int \<times> int \<Rightarrow> ndarray \<Rightarrow> int \<times> int \<times> int \<Rightarrow> ndarray \<Rightarrow> error + ndarray" where
  "face_body_snap N snap ix cm =
     ebind (getitem snap ix) (\<lambda>c.
       if c = 0 then
         ebind (py_and [truthy (x_lo N snap ix), truthy (x_hi N snap ix),
                        is_one (y_lo N snap ix), truthy (y_hi N snap ix)]) (\<lambda>b1.
           if b1 then setitem cm ix 1
           else ebind (py_and [truthy (y_lo N snap ix), truthy (y_hi N snap ix),
                               truthy (z_lo N snap ix), truthy (z_hi N snap ix)]) (\<lambda>b2.
             if b2 then setitem cm ix 1
             else ebind (py_and [truthy (z_lo N snap ix), truthy (z_hi N snap ix),
                                 truthy (x_lo N snap ix), truthy (x_hi N snap ix)]) (\<lambda>b3.
               if b3 then setitem cm ix 1 else Inr cm)))
       else Inr cm)"

definition cube_body_snap ::
  "int \<times> int \<times> int \<Rightarrow> ndarray \<Rightarrow> int \<times> int \<times> int \<Rightarrow> ndarray \<Rightarrow> error + ndarray" where
  "cube_body_snap N snap ix cm =
     ebind (getitem snap ix) (\<lambda>c.
       if c = 0 then
         ebind (py_and [truthy (x_lo N snap ix), truthy (x_hi N snap ix)]) (\<lambda>b1.
           if b1 then
             ebind (py_and [truthy (y_lo N snap ix), truthy (y_hi N snap ix)]) (\<lambda>b2.
               if b2 then
                 ebind (py_and [truthy (z_lo N snap ix), truthy (z_hi N snap ix)]) (\<lambda>b3.
                   if b3 then setitem cm ix 1 else Inr cm)
               else Inr cm)
           else Inr cm)
       else Inr cm)"

definition CubeMap_jacobi :: "ndarray \<Rightarrow> error + ndarray" where
  "CubeMap_jacobi arr =
     (case shape arr of
        [nx, ny, nz] \<Rightarrow>
          (let N = (2 * int nx - 1, 2 * int ny - 1, 2 * int nz - 1) in
           case N of (Nx, Ny, Nz) \<Rightarrow>
             ebind (np_zeros [Nx, Ny, Nz]) (\<lambda>cubemap.
             ebind (scan3 (int nx, int ny, int nz) (vertex_body arr) cubemap) (\<lambda>cubemap.
             ebind (scan3 N (edge_body_snap N cubemap) cubemap) (\<lambda>cubemap.
             ebind (scan3 N (face_body_snap N cubemap) cubemap) (\<lambda>cubemap.
             scan3 N (cube_body_snap N cubemap) cubemap)))))
      | _ \<Rightarrow> Inl ValueError)"

definition CubeMap_jacobi_ef :: "ndarray \<Rightarrow> error + ndarray" where
  "CubeMap_jacobi_ef arr =
     (case shape arr of
        [nx, ny, nz] \<Rightarrow>
          (let N = (2 * int nx - 1, 2 * int ny - 1, 2 * int nz - 1) in
           case N of (Nx, Ny, Nz) \<Rightarrow>
             ebind (np_zeros [Nx, Ny, Nz]) (\<lambda>cubemap.
             ebind (scan3 (int nx, int ny, int nz) (vertex_body arr) cubemap) (\<lambda>cubemap.
             ebind (scan3 N (edge_body_snap N cubemap) cubemap) (\<lambda>cubemap.
             ebind (scan3 N (face_body_snap N cubemap) cubemap) (\<lambda>cubemap.
             scan3 N (cube_body N) cubemap)))))
      | _ \<Rightarrow> Inl ValueError)"

section \<open>Notions used to state and prove the properties\<close>

text \<open>
  The index triples of an array of shape \<open>(nx, ny, nz)\<close>, in the order the loops visit
  them; whether a triple lies within the extents \<open>N\<close>; a triple as Python integers.
\<close>

definition cells3 :: "nat \<Rightarrow> nat \<Rightarrow> nat \<Rightarrow> (nat \<times> nat \<times> nat) list" where
  "cells3 nx ny nz = List.product [0..<nx] (List.product [0..<ny] [0..<nz])"

definition inside :: "nat \<times> nat \<times> nat \<Rightarrow> nat \<times> nat \<times> nat \<Rightarrow> bool" where
  "inside N c = (case (N, c) of ((Nx, Ny, Nz), (x, y, z)) \<Rightarrow> x < Nx \<and> y < Ny \<and> z < Nz)"

definition ints :: "nat \<times> nat \<times> nat \<Rightarrow> int \<times> int \<times> int" where
  "ints c = (case c of (x, y, z) \<Rightarrow> (int x, int y, int z))"

definition intN :: "nat \<times> nat \<times> nat \<Rightarrow> int \<times> int \<times> int" where
  "intN N = (case N of (x, y, z) \<Rightarrow> (int x, int y, int z))"

text \<open>
  The row-major position of a cell, the value an array holds there, and the array with that
  cell set to 1. They are what \<open>getitem\<close> and \<open>setitem\<close> compute for indices within the
  shape.
\<close>

definition off :: "nat \<Rightarrow> nat \<Rightarrow> nat \<times> nat \<times> nat \<Rightarrow> nat" where
  "off ny nz c = (case c of (i, j, k) \<Rightarrow> (i * ny + j) * nz + k)"

definition cell :: "ndarray \<Rightarrow> nat \<times> nat \<times> nat \<Rightarrow> rat" where
  "cell a c = data a ! off (shape a ! 1) (shape a ! 2) c"

definition put :: "ndarray \<Rightarrow> nat \<times> nat \<times> nat \<Rightarrow> ndarray" where
  "put cm c = cm\<lparr>data := (data cm)[off (shape cm ! 1) (shape cm ! 2) c := 1]\<rparr>"

definition grid_ok :: "nat \<times> nat \<times> nat \<Rightarrow> ndarray \<Rightarrow> bool" where
  "grid_ok N cm = (case N of (Nx, Ny, Nz) \<Rightarrow>
     shape cm = [Nx, Ny, Nz] \<and> length (data cm) = Nx * Ny * Nz)"

text \<open>What one cell adds to the Euler sum.\<close>

definition euler_weight :: "ndarray \<Rightarrow> nat \<times> nat \<times> nat \<Rightarrow> int" where
  "euler_weight A c = (case c of (x, y, z) \<Rightarrow>
     if cell A c = 1 then (if even (x + y + z) then 1 else - 1) else 0)"

text \<open>The two neighbours of index \<open>i\<close> on an axis of extent \<open>n\<close>, as the passes compute them.\<close>

definition prv :: "nat \<Rightarrow> nat \<Rightarrow> nat" where
  "prv n i = nat ((int i - 1) mod int n)"

definition nxt :: "nat \<Rightarrow> nat \<Rightarrow> nat" where
  "nxt n i = nat ((int i + 1) mod int n)"

text \<open>
  The lattice of the complex for a grid of shape \<open>n\<close>, and the lattice cell of a voxel.
  A lattice coordinate \<open>x\<close> spans the grid coordinates \<open>ends x\<close>: one of them when \<open>x\<close> is
  even, two adjacent ones when it is odd. A lattice cell is present when every voxel it
  spans is occupied; its dimension is the number of its odd coordinates.
\<close>

definition lattice :: "nat \<times> nat \<times> nat \<Rightarrow> nat \<times> nat \<times> nat" where
  "lattice n = (case n of (nx, ny, nz) \<Rightarrow> (2 * nx - 1, 2 * ny - 1, 2 * nz - 1))"

definition twice :: "nat \<times> nat \<times> nat \<Rightarrow> nat \<times> nat \<times> nat" where
  "twice c = (case c of (i, j, k) \<Rightarrow> (2 * i, 2 * j, 2 * k))"

definition ends :: "nat \<Rightarrow> nat set" where
  "ends x = {x div 2, (x + 1) div 2}"

definition present :: "ndarray \<Rightarrow> nat \<times> nat \<times> nat \<Rightarrow> bool" where
  "present arr c = (case c of (x, y, z) \<Rightarrow>
     \<forall>i\<in>ends x. \<forall>j\<in>ends y. \<forall>k\<in>ends z. cell arr (i, j, k) \<noteq> 0)"

definition dim3 :: "nat \<times> nat \<times> nat \<Rightarrow> nat" where
  "dim3 c = (case c of (x, y, z) \<Rightarrow> x mod 2 + y mod 2 + z mod 2)"

text \<open>
  The conditions of the passes on the cells of an array: both neighbours along an axis are
  non-zero (\<open>pair_y1\<close> is the form with \<open>== 1\<close> of line 29), and their combinations in
  the edge, face and cube pass.
\<close>

definition pair_x :: "nat \<times> nat \<times> nat \<Rightarrow> ndarray \<Rightarrow> nat \<times> nat \<times> nat \<Rightarrow> bool" where
  "pair_x N cm c = (case (N, c) of ((Nx, Ny, Nz), (x, y, z)) \<Rightarrow>
     cell cm (prv Nx x, y, z) \<noteq> 0 \<and> cell cm (nxt Nx x, y, z) \<noteq> 0)"

definition pair_y :: "nat \<times> nat \<times> nat \<Rightarrow> ndarray \<Rightarrow> nat \<times> nat \<times> nat \<Rightarrow> bool" where
  "pair_y N cm c = (case (N, c) of ((Nx, Ny, Nz), (x, y, z)) \<Rightarrow>
     cell cm (x, prv Ny y, z) \<noteq> 0 \<and> cell cm (x, nxt Ny y, z) \<noteq> 0)"

definition pair_z :: "nat \<times> nat \<times> nat \<Rightarrow> ndarray \<Rightarrow> nat \<times> nat \<times> nat \<Rightarrow> bool" where
  "pair_z N cm c = (case (N, c) of ((Nx, Ny, Nz), (x, y, z)) \<Rightarrow>
     cell cm (x, y, prv Nz z) \<noteq> 0 \<and> cell cm (x, y, nxt Nz z) \<noteq> 0)"

definition pair_y1 :: "nat \<times> nat \<times> nat \<Rightarrow> ndarray \<Rightarrow> nat \<times> nat \<times> nat \<Rightarrow> bool" where
  "pair_y1 N cm c = (case (N, c) of ((Nx, Ny, Nz), (x, y, z)) \<Rightarrow>
     cell cm (x, prv Ny y, z) = 1 \<and> cell cm (x, nxt Ny y, z) \<noteq> 0)"

definition edge_rule :: "nat \<times> nat \<times> nat \<Rightarrow> ndarray \<Rightarrow> nat \<times> nat \<times> nat \<Rightarrow> bool" where
  "edge_rule N cm c = (pair_x N cm c \<or> pair_y N cm c \<or> pair_z N cm c)"

definition face_rule :: "nat \<times> nat \<times> nat \<Rightarrow> ndarray \<Rightarrow> nat \<times> nat \<times> nat \<Rightarrow> bool" where
  "face_rule N cm c = (pair_x N cm c \<and> pair_y1 N cm c \<or> pair_y N cm c \<and> pair_z N cm c
     \<or> pair_z N cm c \<and> pair_x N cm c)"

definition cube_rule :: "nat \<times> nat \<times> nat \<Rightarrow> ndarray \<Rightarrow> nat \<times> nat \<times> nat \<Rightarrow> bool" where
  "cube_rule N cm c = (pair_x N cm c \<and> pair_y N cm c \<and> pair_z N cm c)"

text \<open>
  What holds of the array during the passes: every cell is 0 or 1 and only present cells
  are 1 (\<open>sound\<close>); every present cell of dimension at most \<open>p\<close> is 1 (\<open>filled\<close>); the
  cells that are 1 in one array are 1 in the other (\<open>below\<close>). In the finished complex a
  cell is 1 exactly when it is present.
\<close>

definition sound :: "ndarray \<Rightarrow> nat \<times> nat \<times> nat \<Rightarrow> ndarray \<Rightarrow> bool" where
  "sound arr N cm = (grid_ok N cm \<and>
     (\<forall>c. inside N c \<longrightarrow> cell cm c = 0 \<or> (cell cm c = 1 \<and> present arr c)))"

definition filled :: "ndarray \<Rightarrow> nat \<Rightarrow> nat \<times> nat \<times> nat \<Rightarrow> ndarray \<Rightarrow> bool" where
  "filled arr p N cm =
     (\<forall>c. inside N c \<and> present arr c \<and> dim3 c \<le> p \<longrightarrow> cell cm c = 1)"

definition below :: "nat \<times> nat \<times> nat \<Rightarrow> ndarray \<Rightarrow> ndarray \<Rightarrow> bool" where
  "below N a b = (\<forall>c. inside N c \<and> cell a c = 1 \<longrightarrow> cell b c = 1)"

definition finished :: "ndarray \<Rightarrow> nat \<times> nat \<times> nat \<Rightarrow> ndarray \<Rightarrow> bool" where
  "finished arr N cm = (grid_ok N cm \<and>
     (\<forall>c. inside N c \<longrightarrow> cell cm c = (if present arr c then 1 else 0)))"

text \<open>
  The value of a cell once the passes up to dimension \<open>q\<close> are done, and the array while
  the pass of dimension \<open>q + 1\<close> runs in place: the cells of \<open>pre\<close>, already visited, hold
  their value after the pass, the others their value before it.
\<close>

definition level :: "ndarray \<Rightarrow> nat \<Rightarrow> nat \<times> nat \<times> nat \<Rightarrow> rat" where
  "level arr q c = (if present arr c \<and> dim3 c \<le> q then 1 else 0)"

definition midway ::
  "ndarray \<Rightarrow> nat \<Rightarrow> nat \<times> nat \<times> nat \<Rightarrow> (nat \<times> nat \<times> nat) list \<Rightarrow> ndarray \<Rightarrow> bool" where
  "midway arr q N pre s = (grid_ok N s \<and>
     (\<forall>c. inside N c \<longrightarrow>
        cell s c = (if c \<in> set pre then level arr (Suc q) c else level arr q c)))"

text \<open>
  The array that \<open>CubeMap\<close> holds when the edge pass starts, and when the face pass starts.
\<close>

definition vertices_done :: "ndarray \<Rightarrow> error + ndarray" where
  "vertices_done arr =
     (case shape arr of
        [nx, ny, nz] \<Rightarrow>
          ebind (np_zeros [2 * int nx - 1, 2 * int ny - 1, 2 * int nz - 1]) (\<lambda>cubemap.
            scan3 (int nx, int ny, int nz) (vertex_body arr) cubemap)
      | _ \<Rightarrow> Inl ValueError)"

definition edges_done :: "ndarray \<Rightarrow> error + ndarray" where
  "edges_done arr =
     (case shape arr of
        [nx, ny, nz] \<Rightarrow>
          (let N = (2 * int nx - 1, 2 * int ny - 1, 2 * int nz - 1) in
           ebind (vertices_done arr) (\<lambda>cubemap. scan3 N (edge_body N) cubemap))
      | _ \<Rightarrow> Inl ValueError)"

section \<open>Loops and array accesses\<close>

lemma efold_append: "efold f (xs @ ys) s = ebind (efold f xs s) (efold f ys)"
  by (induction xs arbitrary: s) (auto simp: ebind_def split: sum.splits)

lemma efold_map: "efold f (map h xs) s = efold (\<lambda>x. f (h x)) xs s"
  by (induction xs arbitrary: s) (auto split: sum.splits)

lemma efold_product:
  "efold (\<lambda>x. efold (\<lambda>y. f (x, y)) ys) xs s = efold f (List.product xs ys) s"
  by (induction xs arbitrary: s) (auto simp: efold_append efold_map ebind_def split: sum.splits)

lemma scan3_flat:
  "scan3 (int nx, int ny, int nz) body s =
     efold (\<lambda>c. body (case c of (i, j, k) \<Rightarrow> (int i, int j, int k))) (cells3 nx ny nz) s"
proof -
  let ?g = "\<lambda>c. body (case c of (i, j, k) \<Rightarrow> (int i, int j, int k))"
  have inner: "efold (\<lambda>j. efold (\<lambda>k. body (int i, int j, int k)) [0..<nz]) [0..<ny]
      = efold (\<lambda>jk. ?g (i, jk)) (List.product [0..<ny] [0..<nz])" for i
  proof (rule ext)
    fix t
    show "efold (\<lambda>j. efold (\<lambda>k. body (int i, int j, int k)) [0..<nz]) [0..<ny] t
      = efold (\<lambda>jk. ?g (i, jk)) (List.product [0..<ny] [0..<nz]) t"
      using efold_product [of "\<lambda>jk. ?g (i, jk)" "[0..<nz]" "[0..<ny]" t] by simp
  qed
  have "efold (\<lambda>i. efold (\<lambda>jk. ?g (i, jk)) (List.product [0..<ny] [0..<nz])) [0..<nx] s
      = efold ?g (cells3 nx ny nz) s"
    unfolding cells3_def by (rule efold_product)
  then show ?thesis by (simp add: scan3_def xrange_def inner)
qed

lemma set_cells3: "set (cells3 nx ny nz) = {(i, j, k). i < nx \<and> j < ny \<and> k < nz}"
  by (auto simp: cells3_def)

lemma distinct_cells3: "distinct (cells3 nx ny nz)"
  by (simp add: cells3_def distinct_product)

lemma efold_rule:
  assumes "I s" and "\<forall>c\<in>D. Q c s"
    and step: "\<And>x s. x \<in> set xs \<Longrightarrow> I s \<Longrightarrow>
            \<exists>s'. f x s = Inr s' \<and> I s' \<and> Q x s' \<and> (\<forall>c. Q c s \<longrightarrow> Q c s')"
  shows "\<exists>s'. efold f xs s = Inr s' \<and> I s' \<and> (\<forall>c\<in>D \<union> set xs. Q c s')"
  using assms
proof (induction xs arbitrary: s D)
  case Nil
  then show ?case by simp
next
  case (Cons x xs)
  from Cons.prems(3) [of x s] Cons.prems(1)
  obtain s1 where s1: "f x s = Inr s1" "I s1" "Q x s1" "\<forall>c. Q c s \<longrightarrow> Q c s1"
    by auto
  have "\<forall>c\<in>insert x D. Q c s1"
    using s1 Cons.prems(2) by auto
  from Cons.IH [OF s1(2) this] Cons.prems(3)
  obtain s' where "efold f xs s1 = Inr s'" "I s'" "\<forall>c\<in>insert x D \<union> set xs. Q c s'"
    by auto
  then show ?case using s1(1) by auto
qed

lemma efold_sum:
  fixes w :: "'a \<Rightarrow> int"
  assumes "\<And>x s. x \<in> set xs \<Longrightarrow> f x s = Inr (s + w x)"
  shows "efold f xs s = Inr (s + sum_list (map w xs))"
  using assms by (induction xs arbitrary: s) (auto simp: algebra_simps)

subsection \<open>Positions in row-major order\<close>

lemma pair_lt: "a < A \<Longrightarrow> b < B \<Longrightarrow> a * B + b < A * (B::nat)"
proof -
  assume "a < A" "b < B"
  then have "a * B + b < Suc a * B" by simp
  also have "\<dots> \<le> A * B" using \<open>a < A\<close> by (intro mult_le_mono1) simp
  finally show ?thesis .
qed

lemma pair_inj:
  "b < B \<Longrightarrow> b' < B \<Longrightarrow> a * B + b = a' * B + b' \<Longrightarrow> a = a' \<and> b = (b'::nat)"
proof -
  assume h: "b < B" "b' < B" "a * B + b = a' * B + b'"
  have "(a * B + b) div B = a" "(a' * B + b') div B = a'"
       "(a * B + b) mod B = b" "(a' * B + b') mod B = b'"
    using h(1,2) by simp_all
  with h(3) show ?thesis by metis
qed

lemma off_lt: "i < nx \<Longrightarrow> j < ny \<Longrightarrow> k < nz \<Longrightarrow> off ny nz (i, j, k) < nx * ny * nz"
  by (simp add: off_def pair_lt)

lemma off_inj:
  "j < ny \<Longrightarrow> k < nz \<Longrightarrow> j' < ny \<Longrightarrow> k' < nz \<Longrightarrow>
   off ny nz (i, j, k) = off ny nz (i', j', k') \<Longrightarrow> i = i' \<and> j = j' \<and> k = k'"
proof -
  assume h: "j < ny" "k < nz" "j' < ny" "k' < nz" "off ny nz (i, j, k) = off ny nz (i', j', k')"
  from h(5) have "(i * ny + j) * nz + k = (i' * ny + j') * nz + k'"
    by (simp add: off_def)
  from pair_inj [OF h(2) h(4) this] have "i * ny + j = i' * ny + j'" "k = k'"
    by simp_all
  with pair_inj [OF h(1) h(3)] show ?thesis by simp
qed

subsection \<open>Indices within the shape\<close>

lemma axis_index_nat: "i < n \<Longrightarrow> axis_index n (int i) = Inr i"
  by (simp add: axis_index_def)

lemma offset3_in:
  "i < nx \<Longrightarrow> j < ny \<Longrightarrow> k < nz \<Longrightarrow>
   offset3 [nx, ny, nz] (int i, int j, int k) = Inr (off ny nz (i, j, k))"
  by (simp add: offset3_def ebind_def axis_index_nat off_def)

lemma getitem_in:
  "shape a = [nx, ny, nz] \<Longrightarrow> i < nx \<Longrightarrow> j < ny \<Longrightarrow> k < nz \<Longrightarrow>
   getitem a (int i, int j, int k) = Inr (cell a (i, j, k))"
  by (simp add: getitem_def offset3_in ebind_def cell_def)

lemma setitem_in:
  "shape a = [nx, ny, nz] \<Longrightarrow> i < nx \<Longrightarrow> j < ny \<Longrightarrow> k < nz \<Longrightarrow>
   setitem a (int i, int j, int k) v = Inr (a\<lparr>data := (data a)[off ny nz (i, j, k) := v]\<rparr>)"
  by (simp add: setitem_def offset3_in ebind_def)

subsection \<open>The Euler sum\<close>

lemma euler_body_in:
  assumes "shape A = [nx, ny, nz]" "x < nx" "y < ny" "z < nz"
  shows "euler_body A (int x, int y, int z) chi = Inr (chi + euler_weight A (x, y, z))"
proof -
  have "(int x + int y + int z) mod 2 = 0 \<longleftrightarrow> even (x + y + z)"
    by presburger
  then show ?thesis
    using assms
    by (simp add: euler_body_def is_one_def getitem_in ebind_def pymod_def euler_weight_def)
qed

lemma euler_sum_list:
  assumes "shape A = [nx, ny, nz]"
  shows "EulerCharacteristic_seq A = Inr (sum_list (map (euler_weight A) (cells3 nx ny nz)))"
proof -
  have "efold (\<lambda>c. euler_body A (case c of (i, j, k) \<Rightarrow> (int i, int j, int k))) (cells3 nx ny nz) 0
      = Inr (0 + sum_list (map (euler_weight A) (cells3 nx ny nz)))"
    by (rule efold_sum) (auto simp: set_cells3 euler_body_in [OF assms])
  then show ?thesis
    using assms by (simp add: EulerCharacteristic_seq_def scan3_flat)
qed

lemma euler_sum:
  assumes "shape A = [nx, ny, nz]"
  shows "EulerCharacteristic_seq A =
     Inr (\<Sum>(x, y, z) \<in> {(x, y, z). x < nx \<and> y < ny \<and> z < nz \<and> cell A (x, y, z) = 1}.
            if even (x + y + z) then 1 else - 1)"
proof -
  let ?R = "{(x, y, z). x < nx \<and> y < ny \<and> z < nz}"
  let ?S = "{(x, y, z). x < nx \<and> y < ny \<and> z < nz \<and> cell A (x, y, z) = 1}"
  have fin: "finite ?R"
    using set_cells3 [of nx ny nz, symmetric] by (metis List.finite_set)
  have "sum_list (map (euler_weight A) (cells3 nx ny nz)) = sum (euler_weight A) ?R"
    using sum_list_distinct_conv_sum_set [OF distinct_cells3, of "euler_weight A" nx ny nz]
    by (simp add: set_cells3)
  also have "\<dots> = sum (euler_weight A) ?S"
    by (rule sum.mono_neutral_right [OF fin]) (auto simp: euler_weight_def split: if_splits)
  also have "\<dots> = (\<Sum>(x, y, z) \<in> ?S. if even (x + y + z) then 1 else - 1)"
    by (rule sum.cong) (auto simp: euler_weight_def)
  finally show ?thesis
    by (simp add: euler_sum_list [OF assms])
qed

subsection \<open>Inputs of the wrong shape or without cells\<close>

lemma cell_in_set:
  assumes "shape a = [nx, ny, nz]" "wf_ndarray a" "i < nx" "j < ny" "k < nz"
  shows "cell a (i, j, k) \<in> set (data a)"
proof -
  have "off ny nz (i, j, k) < length (data a)"
    using off_lt [OF assms(3,4,5)] assms(1,2) by (simp add: wf_ndarray_def mult.assoc)
  then show ?thesis
    using assms(1) by (simp add: cell_def)
qed

lemma CubeMap_zero_axis:
  assumes "shape A = [nx, ny, nz]" "nx = 0 \<or> ny = 0 \<or> nz = 0"
  shows "CubeMap A = Inl ValueError"
  using assms by (auto simp: CubeMap_def np_zeros_def ebind_def)

lemma Euler_zero_axis:
  assumes "shape A = [nx, ny, nz]" "nx = 0 \<or> ny = 0 \<or> nz = 0"
  shows "EulerCharacteristic_seq A = Inr 0"
proof -
  have e: "{(x, y, z). x < nx \<and> y < ny \<and> z < nz \<and> cell A (x, y, z) = 1} = {}"
    using assms(2) by auto
  show ?thesis unfolding euler_sum [OF assms(1)] e by simp
qed

lemma rank3_cases:
  "length sh = 3 \<Longrightarrow> \<exists>nx ny nz. sh = [nx, ny, nz]"
  by (cases sh; cases "tl sh"; cases "tl (tl sh)") auto

lemma not_rank3: "length (shape A) \<noteq> 3 \<Longrightarrow>
  CubeMap A = Inl ValueError \<and> EulerCharacteristic_seq A = Inl ValueError"
  by (auto simp: CubeMap_def EulerCharacteristic_seq_def split: list.splits)

subsection \<open>Neighbours modulo the extent\<close>

lemma prv_lt: "i < n \<Longrightarrow> prv n i < n"
  by (simp add: prv_def nat_less_iff)

lemma nxt_lt: "i < n \<Longrightarrow> nxt n i < n"
  by (simp add: nxt_def nat_less_iff)

lemma pymod_prv: "i < n \<Longrightarrow> pymod (int i - 1) (int n) = Inr (int (prv n i))"
  by (simp add: pymod_def prv_def)

lemma pymod_nxt: "i < n \<Longrightarrow> pymod (int i + 1) (int n) = Inr (int (nxt n i))"
  by (simp add: pymod_def nxt_def)

lemma prv_cases: "i < n \<Longrightarrow> prv n i = (if i = 0 then n - 1 else i - 1)"
proof (cases "i = 0")
  case True
  assume "i < n"
  then have "(- 1) mod int n = int n - 1"
    using True by (simp add: zmod_minus1)
  then show ?thesis using True by (simp add: prv_def)
next
  case False
  assume "i < n"
  then have "(int i - 1) mod int n = int i - 1"
    using False by (intro mod_pos_pos_trivial) auto
  then show ?thesis using False by (simp add: prv_def)
qed

lemma nxt_cases: "i < n \<Longrightarrow> nxt n i = (if i + 1 = n then 0 else i + 1)"
proof (cases "i + 1 = n")
  case True
  then have "(int i + 1) mod int n = 0"
    by (metis mod_self of_nat_1 of_nat_add)
  then show ?thesis using True by (simp add: nxt_def)
next
  case False
  assume "i < n"
  then have "(int i + 1) mod int n = int i + 1"
    using False by (intro mod_pos_pos_trivial) auto
  then show ?thesis using False by (simp add: nxt_def)
qed

lemma prv_odd: "odd x \<Longrightarrow> x < n \<Longrightarrow> prv n x = x - 1"
  by (auto simp: prv_cases)

lemma nxt_odd: "odd x \<Longrightarrow> odd n \<Longrightarrow> x < n \<Longrightarrow> nxt n x = x + 1"
  by (auto simp: nxt_cases)

subsection \<open>Presence along an axis\<close>

lemma ends_odd: "odd x \<Longrightarrow> ends x = ends (x - 1) \<union> ends (x + 1)"
  by (auto simp: ends_def elim!: oddE)

lemma ends_prv_sub: "odd n \<Longrightarrow> x < n \<Longrightarrow> ends x \<subseteq> ends (prv n x) \<union> ends (nxt n x)"
proof (cases "odd x")
  case True
  assume "odd n" "x < n"
  then show ?thesis using True by (simp add: prv_odd nxt_odd ends_odd)
next
  case False
  assume h: "odd n" "x < n"
  show ?thesis
  proof (cases "x = 0")
    case True
    then show ?thesis using h by (cases "n = 1") (auto simp: prv_cases nxt_cases ends_def)
  next
    case x: False
    with False h have "prv n x = x - 1" by (simp add: prv_cases)
    moreover have "(x - 1 + 1) div 2 = x div 2" "(x + 1) div 2 = x div 2"
      using False x by auto
    ultimately show ?thesis by (auto simp: ends_def)
  qed
qed

lemma present_closed_x:
  assumes "odd Nx" "x < Nx" "present arr (prv Nx x, y, z)" "present arr (nxt Nx x, y, z)"
  shows "present arr (x, y, z)"
  using ends_prv_sub [OF assms(1,2)] assms(3,4) unfolding present_def by auto

lemma present_closed_y:
  assumes "odd Ny" "y < Ny" "present arr (x, prv Ny y, z)" "present arr (x, nxt Ny y, z)"
  shows "present arr (x, y, z)"
  using ends_prv_sub [OF assms(1,2)] assms(3,4) unfolding present_def by auto

lemma present_closed_z:
  assumes "odd Nz" "z < Nz" "present arr (x, y, prv Nz z)" "present arr (x, y, nxt Nz z)"
  shows "present arr (x, y, z)"
  using ends_prv_sub [OF assms(1,2)] assms(3,4) unfolding present_def by auto

lemma present_odd_x:
  "odd x \<Longrightarrow> present arr (x, y, z) \<Longrightarrow> present arr (x - 1, y, z) \<and> present arr (x + 1, y, z)"
  unfolding present_def by (auto simp: ends_odd)

lemma present_odd_y:
  "odd y \<Longrightarrow> present arr (x, y, z) \<Longrightarrow> present arr (x, y - 1, z) \<and> present arr (x, y + 1, z)"
  unfolding present_def by (auto simp: ends_odd)

lemma present_odd_z:
  "odd z \<Longrightarrow> present arr (x, y, z) \<Longrightarrow> present arr (x, y, z - 1) \<and> present arr (x, y, z + 1)"
  unfolding present_def by (auto simp: ends_odd)

subsection \<open>Reading and writing the cells of the complex\<close>

lemma inside_iff: "inside (Nx, Ny, Nz) (x, y, z) \<longleftrightarrow> x < Nx \<and> y < Ny \<and> z < Nz"
  by (simp add: inside_def)

lemma cell_shape: "shape a = [nx, ny, nz] \<Longrightarrow> cell a c = data a ! off ny nz c"
  by (simp add: cell_def)

lemma grid_ok_shape: "grid_ok (Nx, Ny, Nz) cm \<Longrightarrow> shape cm = [Nx, Ny, Nz]"
  by (simp add: grid_ok_def)

lemma put_grid_ok: "grid_ok N cm \<Longrightarrow> grid_ok N (put cm c)"
  by (cases N) (auto simp: grid_ok_def put_def)

lemma cell_put:
  assumes "grid_ok N cm" "inside N c" "inside N d"
  shows "cell (put cm c) d = (if d = c then 1 else cell cm d)"
proof -
  obtain Nx Ny Nz where N: "N = (Nx, Ny, Nz)" by (cases N) auto
  obtain x y z where c: "c = (x, y, z)" by (cases c) auto
  obtain u v w where d: "d = (u, v, w)" by (cases d) auto
  have sh: "shape cm = [Nx, Ny, Nz]" and len: "length (data cm) = Nx * Ny * Nz"
    using assms(1) N by (simp_all add: grid_ok_def)
  have ic: "x < Nx" "y < Ny" "z < Nz" and id: "u < Nx" "v < Ny" "w < Nz"
    using assms(2,3) N c d by (simp_all add: inside_def)
  have lt: "off Ny Nz d < length (data cm)"
    using off_lt [OF id] len d by simp
  have inj: "off Ny Nz d = off Ny Nz c \<longleftrightarrow> d = c"
    using off_inj [OF id(2,3) ic(2,3)] c d by auto
  show ?thesis
    using lt inj sh by (auto simp: cell_def put_def nth_list_update)
qed

lemma getitem_cell:
  "grid_ok N cm \<Longrightarrow> inside N c \<Longrightarrow> getitem cm (ints c) = Inr (cell cm c)"
  by (cases N; cases c) (auto simp: grid_ok_def inside_def ints_def getitem_in)

lemma setitem_put:
  "grid_ok N cm \<Longrightarrow> inside N c \<Longrightarrow> setitem cm (ints c) 1 = Inr (put cm c)"
  by (cases N; cases c) (auto simp: grid_ok_def inside_def ints_def setitem_in put_def)

lemma x_lo_cell:
  assumes "grid_ok (Nx, Ny, Nz) cm" "x < Nx" "y < Ny" "z < Nz"
  shows "x_lo (int Nx, int Ny, int Nz) cm (int x, int y, int z) = Inr (cell cm (prv Nx x, y, z))"
  using assms by (simp add: x_lo_def pymod_prv ebind_def getitem_in grid_ok_def prv_lt)

lemma x_hi_cell:
  assumes "grid_ok (Nx, Ny, Nz) cm" "x < Nx" "y < Ny" "z < Nz"
  shows "x_hi (int Nx, int Ny, int Nz) cm (int x, int y, int z) = Inr (cell cm (nxt Nx x, y, z))"
  using assms by (simp add: x_hi_def pymod_nxt ebind_def getitem_in grid_ok_def nxt_lt)

lemma y_lo_cell:
  assumes "grid_ok (Nx, Ny, Nz) cm" "x < Nx" "y < Ny" "z < Nz"
  shows "y_lo (int Nx, int Ny, int Nz) cm (int x, int y, int z) = Inr (cell cm (x, prv Ny y, z))"
  using assms by (simp add: y_lo_def pymod_prv ebind_def getitem_in grid_ok_def prv_lt)

lemma y_hi_cell:
  assumes "grid_ok (Nx, Ny, Nz) cm" "x < Nx" "y < Ny" "z < Nz"
  shows "y_hi (int Nx, int Ny, int Nz) cm (int x, int y, int z) = Inr (cell cm (x, nxt Ny y, z))"
  using assms by (simp add: y_hi_def pymod_nxt ebind_def getitem_in grid_ok_def nxt_lt)

lemma z_lo_cell:
  assumes "grid_ok (Nx, Ny, Nz) cm" "x < Nx" "y < Ny" "z < Nz"
  shows "z_lo (int Nx, int Ny, int Nz) cm (int x, int y, int z) = Inr (cell cm (x, y, prv Nz z))"
  using assms by (simp add: z_lo_def pymod_prv ebind_def getitem_in grid_ok_def prv_lt)

lemma z_hi_cell:
  assumes "grid_ok (Nx, Ny, Nz) cm" "x < Nx" "y < Ny" "z < Nz"
  shows "z_hi (int Nx, int Ny, int Nz) cm (int x, int y, int z) = Inr (cell cm (x, y, nxt Nz z))"
  using assms by (simp add: z_hi_def pymod_nxt ebind_def getitem_in grid_ok_def nxt_lt)

subsection \<open>The bodies of the passes\<close>

lemma edge_body_self: "edge_body N ix cm = edge_body_snap N cm ix cm"
  by (simp add: edge_body_def edge_body_snap_def)

lemma face_body_self: "face_body N ix cm = face_body_snap N cm ix cm"
  by (simp add: face_body_def face_body_snap_def)

lemma cube_body_self: "cube_body N ix cm = cube_body_snap N cm ix cm"
  by (simp add: cube_body_def cube_body_snap_def)

lemmas nb_cell = x_lo_cell x_hi_cell y_lo_cell y_hi_cell z_lo_cell z_hi_cell

lemmas pair_defs = pair_x_def pair_y_def pair_z_def pair_y1_def

lemma edge_body_snap_char:
  assumes "grid_ok N rd" "grid_ok N cm" "inside N c"
  shows "edge_body_snap (intN N) rd (ints c) cm =
    Inr (if cell rd c = 0 \<and> edge_rule N rd c then put cm c else cm)"
proof -
  obtain Nx Ny Nz where N: "N = (Nx, Ny, Nz)" by (cases N) auto
  obtain x y z where c: "c = (x, y, z)" by (cases c) auto
  have i: "x < Nx" "y < Ny" "z < Nz" using assms(3) N c by (simp_all add: inside_def)
  note g = assms(1) [unfolded N]
  have s: "setitem cm (int x, int y, int z) 1 = Inr (put cm c)"
    using setitem_put [OF assms(2,3)] c by (simp add: ints_def)
  have r: "getitem rd (int x, int y, int z) = Inr (cell rd c)"
    using getitem_cell [OF assms(1,3)] c by (simp add: ints_def)
  show ?thesis
    unfolding N c intN_def ints_def edge_body_snap_def edge_rule_def
    by (simp add: nb_cell [OF g i] s [unfolded c] r [unfolded c] truthy_def is_one_def ebind_def pair_defs)
qed

lemma face_body_snap_char:
  assumes "grid_ok N rd" "grid_ok N cm" "inside N c"
  shows "face_body_snap (intN N) rd (ints c) cm =
    Inr (if cell rd c = 0 \<and> face_rule N rd c then put cm c else cm)"
proof -
  obtain Nx Ny Nz where N: "N = (Nx, Ny, Nz)" by (cases N) auto
  obtain x y z where c: "c = (x, y, z)" by (cases c) auto
  have i: "x < Nx" "y < Ny" "z < Nz" using assms(3) N c by (simp_all add: inside_def)
  note g = assms(1) [unfolded N]
  have s: "setitem cm (int x, int y, int z) 1 = Inr (put cm c)"
    using setitem_put [OF assms(2,3)] c by (simp add: ints_def)
  have r: "getitem rd (int x, int y, int z) = Inr (cell rd c)"
    using getitem_cell [OF assms(1,3)] c by (simp add: ints_def)
  show ?thesis
    unfolding N c intN_def ints_def face_body_snap_def face_rule_def
    by (auto simp add: nb_cell [OF g i] s [unfolded c] r [unfolded c] truthy_def is_one_def ebind_def pair_defs)
qed

lemma cube_body_snap_char:
  assumes "grid_ok N rd" "grid_ok N cm" "inside N c"
  shows "cube_body_snap (intN N) rd (ints c) cm =
    Inr (if cell rd c = 0 \<and> cube_rule N rd c then put cm c else cm)"
proof -
  obtain Nx Ny Nz where N: "N = (Nx, Ny, Nz)" by (cases N) auto
  obtain x y z where c: "c = (x, y, z)" by (cases c) auto
  have i: "x < Nx" "y < Ny" "z < Nz" using assms(3) N c by (simp_all add: inside_def)
  note g = assms(1) [unfolded N]
  have s: "setitem cm (int x, int y, int z) 1 = Inr (put cm c)"
    using setitem_put [OF assms(2,3)] c by (simp add: ints_def)
  have r: "getitem rd (int x, int y, int z) = Inr (cell rd c)"
    using getitem_cell [OF assms(1,3)] c by (simp add: ints_def)
  show ?thesis
    unfolding N c intN_def ints_def cube_body_snap_def cube_rule_def
    by (auto simp add: nb_cell [OF g i] s [unfolded c] r [unfolded c] truthy_def is_one_def ebind_def pair_defs)
qed

subsection \<open>One pass, read in place or from a snapshot\<close>

lemma sound_nonzero:
  "sound arr N cm \<Longrightarrow> inside N c \<Longrightarrow> cell cm c \<noteq> 0 \<Longrightarrow> cell cm c = 1 \<and> present arr c"
  unfolding sound_def by blast

lemma rule_sound:
  assumes odd: "odd Nx" "odd Ny" "odd Nz"
    and rd: "sound arr (Nx, Ny, Nz) rd" and ic: "inside (Nx, Ny, Nz) c"
    and r: "edge_rule (Nx, Ny, Nz) rd c"
  shows "present arr c"
proof -
  obtain x y z where c: "c = (x, y, z)" by (cases c) auto
  have i: "x < Nx" "y < Ny" "z < Nz" using ic c by (simp_all add: inside_def)
  note nz = sound_nonzero [OF rd]
  from r consider "pair_x (Nx, Ny, Nz) rd c" | "pair_y (Nx, Ny, Nz) rd c" | "pair_z (Nx, Ny, Nz) rd c"
    by (auto simp: edge_rule_def)
  then show ?thesis
  proof cases
    case 1
    then have "present arr (prv Nx x, y, z)" "present arr (nxt Nx x, y, z)"
      using nz [of "(prv Nx x, y, z)"] nz [of "(nxt Nx x, y, z)"] i c
      by (auto simp: pair_x_def inside_def prv_lt nxt_lt)
    then show ?thesis using present_closed_x [OF odd(1) i(1)] c by simp
  next
    case 2
    then have "present arr (x, prv Ny y, z)" "present arr (x, nxt Ny y, z)"
      using nz [of "(x, prv Ny y, z)"] nz [of "(x, nxt Ny y, z)"] i c
      by (auto simp: pair_y_def inside_def prv_lt nxt_lt)
    then show ?thesis using present_closed_y [OF odd(2) i(2)] c by simp
  next
    case 3
    then have "present arr (x, y, prv Nz z)" "present arr (x, y, nxt Nz z)"
      using nz [of "(x, y, prv Nz z)"] nz [of "(x, y, nxt Nz z)"] i c
      by (auto simp: pair_z_def inside_def prv_lt nxt_lt)
    then show ?thesis using present_closed_z [OF odd(3) i(3)] c by simp
  qed
qed

lemma pass_generic:
  fixes body :: "ndarray \<Rightarrow> int \<times> int \<times> int \<Rightarrow> ndarray \<Rightarrow> error + ndarray"
  assumes odd: "odd Nx" "odd Ny" "odd Nz" and N: "N = (Nx, Ny, Nz)"
    and char: "\<And>rd cm c. grid_ok N rd \<Longrightarrow> grid_ok N cm \<Longrightarrow> inside N c \<Longrightarrow>
         body rd (ints c) cm = Inr (if cell rd c = 0 \<and> R rd c then put cm c else cm)"
    and Rs: "\<And>rd c. R rd c \<Longrightarrow> edge_rule N rd c"
    and Rc: "\<And>rd c. sound arr N rd \<Longrightarrow> filled arr q N rd \<Longrightarrow> inside N c \<Longrightarrow>
         present arr c \<Longrightarrow> dim3 c = Suc q \<Longrightarrow> R rd c"
    and start: "sound arr N cm0" "filled arr q N cm0"
    and mode: "sel = (\<lambda>s. s) \<or> sel = (\<lambda>s. cm0)"
  shows "\<exists>cm'. scan3 (intN N) (\<lambda>ix s. body (sel s) ix s) cm0 = Inr cm'
           \<and> sound arr N cm' \<and> filled arr (Suc q) N cm'"
proof -
  let ?I = "\<lambda>s. sound arr N s \<and> filled arr q N s \<and> below N cm0 s"
  let ?Q = "\<lambda>c s. inside N c \<and> present arr c \<and> dim3 c = Suc q \<longrightarrow> cell s c = 1"
  let ?f = "\<lambda>c s. body (sel s) (ints c) s"
  have flat: "scan3 (intN N) (\<lambda>ix s. body (sel s) ix s) cm0 = efold ?f (cells3 Nx Ny Nz) cm0"
    unfolding N intN_def ints_def by (simp add: scan3_flat)
  have I0: "?I cm0" using start by (simp add: below_def)
  have step: "\<exists>s'. ?f c s = Inr s' \<and> ?I s' \<and> ?Q c s' \<and> (\<forall>d. ?Q d s \<longrightarrow> ?Q d s')"
    if cin: "c \<in> set (cells3 Nx Ny Nz)" and Is: "?I s" for c s
  proof -
    have ic: "inside N c" using cin by (auto simp: set_cells3 N inside_def)
    define rd where "rd = sel s"
    have rd: "sound arr N rd" "filled arr q N rd" "below N rd s"
      using mode Is start unfolding rd_def below_def by auto
    have gs: "grid_ok N s" and grd: "grid_ok N rd"
      using Is rd by (simp_all add: sound_def)
    define s' where "s' = (if cell rd c = 0 \<and> R rd c then put s c else s)"
    have eq: "?f c s = Inr s'"
      using char [OF grd gs ic] by (simp add: rd_def s'_def)
    have pres: "present arr c" if "R rd c"
      using rule_sound [OF odd rd(1) [unfolded N] ic [unfolded N]] Rs [OF that] N by simp
    have gs': "grid_ok N s'" using gs by (simp add: s'_def put_grid_ok)
    have val: "cell s' d = (if d = c \<and> cell rd c = 0 \<and> R rd c then 1 else cell s d)"
      if "inside N d" for d
      using cell_put [OF gs ic that] by (auto simp: s'_def)
    have mono: "cell s' d = 1" if "inside N d" "cell s d = 1" for d
      using val [OF that(1)] that(2) by simp
    have snd: "sound arr N s'"
      unfolding sound_def
    proof (intro conjI allI impI)
      show "grid_ok N s'" by (rule gs')
      fix d assume d: "inside N d"
      have "cell s d = 0 \<or> cell s d = 1 \<and> present arr d"
        using Is d unfolding sound_def by blast
      then show "cell s' d = 0 \<or> cell s' d = 1 \<and> present arr d"
        using val [OF d] pres by auto
    qed
    have fil: "filled arr q N s'"
      using Is mono unfolding filled_def by blast
    have bel: "below N cm0 s'"
      using Is mono unfolding below_def by blast
    have Qc: "?Q c s'"
    proof
      assume h: "inside N c \<and> present arr c \<and> dim3 c = Suc q"
      then have R: "R rd c" using Rc [OF rd(1,2) ic] by simp
      show "cell s' c = 1"
      proof (cases "cell rd c = 0")
        case True
        then show ?thesis using val [OF ic] R by simp
      next
        case False
        then have "cell rd c = 1" using sound_nonzero [OF rd(1) ic] by simp
        then have "cell s c = 1" using rd(3) ic unfolding below_def by blast
        then show ?thesis by (rule mono [OF ic])
      qed
    qed
    have keep: "\<forall>d. ?Q d s \<longrightarrow> ?Q d s'"
      using mono by blast
    show ?thesis using eq snd fil bel Qc keep by blast
  qed
  from efold_rule [of ?I cm0 "{}" ?Q "cells3 Nx Ny Nz" ?f, OF I0 _ step]
  obtain cm' where r: "efold ?f (cells3 Nx Ny Nz) cm0 = Inr cm'" "?I cm'"
    "\<forall>c\<in>set (cells3 Nx Ny Nz). ?Q c cm'"
    by auto
  have "filled arr (Suc q) N cm'"
    unfolding filled_def
  proof (intro allI impI)
    fix c assume h: "inside N c \<and> present arr c \<and> dim3 c \<le> Suc q"
    then have cin: "c \<in> set (cells3 Nx Ny Nz)"
      by (cases c) (auto simp: set_cells3 N inside_def)
    show "cell cm' c = 1"
    proof (cases "dim3 c \<le> q")
      case True
      then show ?thesis using r(2) h unfolding filled_def by blast
    next
      case False
      then have "dim3 c = Suc q" using h by simp
      then show ?thesis using r(3) cin h by blast
    qed
  qed
  then show ?thesis using flat r(1,2) by simp
qed

subsection \<open>The conditions hold at every present cell of the next dimension\<close>

lemma filled_cell:
  "filled arr q N rd \<Longrightarrow> inside N c \<Longrightarrow> present arr c \<Longrightarrow> dim3 c \<le> q \<Longrightarrow> cell rd c = 1"
  unfolding filled_def by blast

lemma dim3_odd: "odd x \<Longrightarrow> x mod 2 = Suc 0" "odd x \<Longrightarrow> (x - 1) mod 2 = 0" "odd x \<Longrightarrow> (x + 1) mod 2 = 0"
  by (auto simp: odd_iff_mod_2_eq_one elim!: oddE)

lemma axis_x_full:
  assumes "odd Nx" "filled arr q (Nx, Ny, Nz) rd" "inside (Nx, Ny, Nz) (x, y, z)"
    "present arr (x, y, z)" "odd x" "dim3 (x, y, z) \<le> Suc q"
  shows "cell rd (prv Nx x, y, z) = 1 \<and> cell rd (nxt Nx x, y, z) = 1"
proof -
  have i: "x < Nx" "y < Ny" "z < Nz" using assms(3) by (simp_all add: inside_def)
  have p: "prv Nx x = x - 1" "nxt Nx x = x + 1"
    using assms(1,5) i by (simp_all add: prv_odd nxt_odd)
  have lt: "x - 1 < Nx" "x + 1 < Nx"
    using prv_lt [OF i(1)] nxt_lt [OF i(1)] p by simp_all
  have d: "dim3 (x - 1, y, z) \<le> q" "dim3 (x + 1, y, z) \<le> q"
    using assms(5,6) by (simp_all add: dim3_def dim3_odd)
  have "cell rd (x - 1, y, z) = 1"
    using filled_cell [OF assms(2) _ _ d(1)] present_odd_x [OF assms(5,4)] lt i
    by (simp add: inside_def)
  moreover have "cell rd (x + 1, y, z) = 1"
    using filled_cell [OF assms(2) _ _ d(2)] present_odd_x [OF assms(5,4)] lt i
    by (simp add: inside_def)
  ultimately show ?thesis by (simp add: p)
qed

lemma axis_y_full:
  assumes "odd Ny" "filled arr q (Nx, Ny, Nz) rd" "inside (Nx, Ny, Nz) (x, y, z)"
    "present arr (x, y, z)" "odd y" "dim3 (x, y, z) \<le> Suc q"
  shows "cell rd (x, prv Ny y, z) = 1 \<and> cell rd (x, nxt Ny y, z) = 1"
proof -
  have i: "x < Nx" "y < Ny" "z < Nz" using assms(3) by (simp_all add: inside_def)
  have p: "prv Ny y = y - 1" "nxt Ny y = y + 1"
    using assms(1,5) i by (simp_all add: prv_odd nxt_odd)
  have lt: "y - 1 < Ny" "y + 1 < Ny"
    using prv_lt [OF i(2)] nxt_lt [OF i(2)] p by simp_all
  have d: "dim3 (x, y - 1, z) \<le> q" "dim3 (x, y + 1, z) \<le> q"
    using assms(5,6) by (simp_all add: dim3_def dim3_odd)
  have "cell rd (x, y - 1, z) = 1"
    using filled_cell [OF assms(2) _ _ d(1)] present_odd_y [OF assms(5,4)] lt i
    by (simp add: inside_def)
  moreover have "cell rd (x, y + 1, z) = 1"
    using filled_cell [OF assms(2) _ _ d(2)] present_odd_y [OF assms(5,4)] lt i
    by (simp add: inside_def)
  ultimately show ?thesis by (simp add: p)
qed

lemma axis_z_full:
  assumes "odd Nz" "filled arr q (Nx, Ny, Nz) rd" "inside (Nx, Ny, Nz) (x, y, z)"
    "present arr (x, y, z)" "odd z" "dim3 (x, y, z) \<le> Suc q"
  shows "cell rd (x, y, prv Nz z) = 1 \<and> cell rd (x, y, nxt Nz z) = 1"
proof -
  have i: "x < Nx" "y < Ny" "z < Nz" using assms(3) by (simp_all add: inside_def)
  have p: "prv Nz z = z - 1" "nxt Nz z = z + 1"
    using assms(1,5) i by (simp_all add: prv_odd nxt_odd)
  have lt: "z - 1 < Nz" "z + 1 < Nz"
    using prv_lt [OF i(3)] nxt_lt [OF i(3)] p by simp_all
  have d: "dim3 (x, y, z - 1) \<le> q" "dim3 (x, y, z + 1) \<le> q"
    using assms(5,6) by (simp_all add: dim3_def dim3_odd)
  have "cell rd (x, y, z - 1) = 1"
    using filled_cell [OF assms(2) _ _ d(1)] present_odd_z [OF assms(5,4)] lt i
    by (simp add: inside_def)
  moreover have "cell rd (x, y, z + 1) = 1"
    using filled_cell [OF assms(2) _ _ d(2)] present_odd_z [OF assms(5,4)] lt i
    by (simp add: inside_def)
  ultimately show ?thesis by (simp add: p)
qed

lemma pairs_full:
  assumes odd: "odd Nx" "odd Ny" "odd Nz"
    and f: "filled arr q (Nx, Ny, Nz) rd" and ic: "inside (Nx, Ny, Nz) c"
    and p: "present arr c" and d: "dim3 c \<le> Suc q"
  shows "odd (fst c) \<Longrightarrow> pair_x (Nx, Ny, Nz) rd c"
    and "odd (fst (snd c)) \<Longrightarrow> pair_y (Nx, Ny, Nz) rd c \<and> pair_y1 (Nx, Ny, Nz) rd c"
    and "odd (snd (snd c)) \<Longrightarrow> pair_z (Nx, Ny, Nz) rd c"
proof -
  obtain x y z where c: "c = (x, y, z)" by (cases c) auto
  show "odd (fst c) \<Longrightarrow> pair_x (Nx, Ny, Nz) rd c"
    using axis_x_full [OF odd(1) f ic [unfolded c] p [unfolded c] _ d [unfolded c]]
    by (simp add: c pair_x_def)
  show "odd (fst (snd c)) \<Longrightarrow> pair_y (Nx, Ny, Nz) rd c \<and> pair_y1 (Nx, Ny, Nz) rd c"
    using axis_y_full [OF odd(2) f ic [unfolded c] p [unfolded c] _ d [unfolded c]]
    by (simp add: c pair_y_def pair_y1_def)
  show "odd (snd (snd c)) \<Longrightarrow> pair_z (Nx, Ny, Nz) rd c"
    using axis_z_full [OF odd(3) f ic [unfolded c] p [unfolded c] _ d [unfolded c]]
    by (simp add: c pair_z_def)
qed

lemma dim3_cases:
  "dim3 c = 1 \<Longrightarrow> odd (fst c) \<or> odd (fst (snd c)) \<or> odd (snd (snd c))"
  "dim3 c = 2 \<Longrightarrow> odd (fst c) \<and> odd (fst (snd c)) \<or> odd (fst (snd c)) \<and> odd (snd (snd c))
     \<or> odd (snd (snd c)) \<and> odd (fst c)"
  "dim3 c = 3 \<Longrightarrow> odd (fst c) \<and> odd (fst (snd c)) \<and> odd (snd (snd c))"
  by (cases c; auto simp: dim3_def odd_iff_mod_2_eq_one; presburger)+

lemma edge_rule_complete:
  assumes "odd Nx" "odd Ny" "odd Nz" "filled arr 0 (Nx, Ny, Nz) rd" "inside (Nx, Ny, Nz) c"
    "present arr c" "dim3 c = Suc 0"
  shows "edge_rule (Nx, Ny, Nz) rd c"
  using pairs_full [OF assms(1-6)] dim3_cases(1) [of c] assms(7)
  by (auto simp: edge_rule_def)

lemma face_rule_complete:
  assumes "odd Nx" "odd Ny" "odd Nz" "filled arr (Suc 0) (Nx, Ny, Nz) rd" "inside (Nx, Ny, Nz) c"
    "present arr c" "dim3 c = Suc (Suc 0)"
  shows "face_rule (Nx, Ny, Nz) rd c"
  using pairs_full [OF assms(1-6)] dim3_cases(2) [of c] assms(7)
  by (auto simp: face_rule_def numeral_2_eq_2)

lemma cube_rule_complete:
  assumes "odd Nx" "odd Ny" "odd Nz" "filled arr (Suc (Suc 0)) (Nx, Ny, Nz) rd" "inside (Nx, Ny, Nz) c"
    "present arr c" "dim3 c = Suc (Suc (Suc 0))"
  shows "cube_rule (Nx, Ny, Nz) rd c"
  using pairs_full [OF assms(1-6)] dim3_cases(3) [of c] assms(7)
  by (auto simp: cube_rule_def numeral_3_eq_3)

subsection \<open>The vertex pass\<close>

lemma ends_even: "ends (2 * i) = {i}"
  by (simp add: ends_def)

lemma present_twice: "present arr (twice (i, j, k)) \<longleftrightarrow> cell arr (i, j, k) \<noteq> 0"
  by (simp add: present_def twice_def ends_even)

lemma inside_twice: "inside n c \<Longrightarrow> inside (lattice n) (twice c)"
  by (cases n; cases c) (auto simp: inside_def lattice_def twice_def)

lemma np_zeros_lattice:
  assumes "0 < nx" "0 < ny" "0 < nz"
  shows "np_zeros [2 * int nx - 1, 2 * int ny - 1, 2 * int nz - 1] =
     Inr \<lparr>shape = [2 * nx - 1, 2 * ny - 1, 2 * nz - 1],
          data = replicate ((2 * nx - 1) * (2 * ny - 1) * (2 * nz - 1)) 0\<rparr>"
proof -
  have "nat (2 * int nx - 1) = 2 * nx - 1" "nat (2 * int ny - 1) = 2 * ny - 1"
    "nat (2 * int nz - 1) = 2 * nz - 1"
    by linarith+
  moreover have "\<not> 2 * int nx - 1 < 0" "\<not> 2 * int ny - 1 < 0" "\<not> 2 * int nz - 1 < 0"
    using assms by linarith+
  ultimately show ?thesis
    by (simp add: np_zeros_def mult.assoc)
qed

lemma zeros_sound:
  "sound arr (Nx, Ny, Nz) \<lparr>shape = [Nx, Ny, Nz], data = replicate (Nx * Ny * Nz) 0\<rparr>"
proof -
  have "cell \<lparr>shape = [Nx, Ny, Nz], data = replicate (Nx * Ny * Nz) 0\<rparr> c = 0"
    if "inside (Nx, Ny, Nz) c" for c
  proof -
    obtain x y z where c: "c = (x, y, z)" by (cases c) auto
    have "off Ny Nz (x, y, z) < Nx * Ny * Nz"
      using that c by (intro off_lt) (simp_all add: inside_def)
    then show ?thesis by (simp add: cell_def c)
  qed
  then show ?thesis by (simp add: sound_def grid_ok_def)
qed

lemma vertex_body_char:
  assumes "shape arr = [nx, ny, nz]" "grid_ok (lattice (nx, ny, nz)) cm" "inside (nx, ny, nz) c"
  shows "vertex_body arr (ints c) cm = Inr (if cell arr c \<noteq> 0 then put cm (twice c) else cm)"
proof -
  obtain i j k where c: "c = (i, j, k)" by (cases c) auto
  have i: "i < nx" "j < ny" "k < nz" using assms(3) c by (simp_all add: inside_def)
  have "setitem cm (ints (twice c)) 1 = Inr (put cm (twice c))"
    by (rule setitem_put [OF assms(2) inside_twice [OF assms(3)]])
  moreover have "ints (twice c) = (int i * 2, int j * 2, int k * 2)"
    by (simp add: ints_def twice_def c)
  ultimately show ?thesis
    using getitem_in [OF assms(1) i]
    by (simp add: vertex_body_def ints_def c truthy_def ebind_def)
qed

lemma even_cell:
  assumes "inside (lattice (nx, ny, nz)) c" "dim3 c = 0"
  shows "\<exists>v. inside (nx, ny, nz) v \<and> c = twice v"
proof -
  obtain x y z where c: "c = (x, y, z)" by (cases c) auto
  have e: "even x" "even y" "even z" using assms(2) c by (auto simp: dim3_def)
  have "inside (nx, ny, nz) (x div 2, y div 2, z div 2)"
    using assms(1) c e by (auto simp: inside_def lattice_def elim!: evenE)
  moreover have "c = twice (x div 2, y div 2, z div 2)"
    using e c by (simp add: twice_def)
  ultimately show ?thesis by blast
qed

lemma vertex_pass:
  assumes sh: "shape arr = [nx, ny, nz]" and s0: "sound arr (lattice (nx, ny, nz)) cm0"
  shows "\<exists>cm'. scan3 (int nx, int ny, int nz) (vertex_body arr) cm0 = Inr cm'
           \<and> sound arr (lattice (nx, ny, nz)) cm' \<and> filled arr 0 (lattice (nx, ny, nz)) cm'"
proof -
  let ?N = "lattice (nx, ny, nz)"
  let ?I = "sound arr ?N"
  let ?Q = "\<lambda>v s. inside (nx, ny, nz) v \<and> cell arr v \<noteq> 0 \<longrightarrow> cell s (twice v) = 1"
  let ?f = "\<lambda>c. vertex_body arr (ints c)"
  have flat: "scan3 (int nx, int ny, int nz) (vertex_body arr) cm0 = efold ?f (cells3 nx ny nz) cm0"
    unfolding ints_def by (simp add: scan3_flat)
  have step: "\<exists>s'. ?f c s = Inr s' \<and> ?I s' \<and> ?Q c s' \<and> (\<forall>d. ?Q d s \<longrightarrow> ?Q d s')"
    if cin: "c \<in> set (cells3 nx ny nz)" and Is: "?I s" for c s
  proof -
    have ic: "inside (nx, ny, nz) c" using cin by (auto simp: set_cells3 inside_def)
    have it: "inside ?N (twice c)" by (rule inside_twice [OF ic])
    have gs: "grid_ok ?N s" using Is by (simp add: sound_def)
    define s' where "s' = (if cell arr c \<noteq> 0 then put s (twice c) else s)"
    have eq: "?f c s = Inr s'"
      using vertex_body_char [OF sh gs ic] by (simp add: s'_def)
    have val: "cell s' d = (if d = twice c \<and> cell arr c \<noteq> 0 then 1 else cell s d)"
      if "inside ?N d" for d
      using cell_put [OF gs it that] by (auto simp: s'_def)
    have pres: "present arr (twice c)" if "cell arr c \<noteq> 0"
      using that present_twice [of arr] by (cases c) simp
    have snd: "sound arr ?N s'"
      unfolding sound_def
    proof (intro conjI allI impI)
      show "grid_ok ?N s'" using gs by (simp add: s'_def put_grid_ok)
      fix d assume d: "inside ?N d"
      have "cell s d = 0 \<or> cell s d = 1 \<and> present arr d"
        using Is d unfolding sound_def by blast
      then show "cell s' d = 0 \<or> cell s' d = 1 \<and> present arr d"
        using val [OF d] pres by auto
    qed
    have Qc: "?Q c s'" using val [OF it] by simp
    have keep: "\<forall>d. ?Q d s \<longrightarrow> ?Q d s'"
      using val inside_twice by simp
    show ?thesis using eq snd Qc keep by blast
  qed
  from efold_rule [of ?I cm0 "{}" ?Q "cells3 nx ny nz" ?f, OF s0 _ step]
  obtain cm' where r: "efold ?f (cells3 nx ny nz) cm0 = Inr cm'" "?I cm'"
    "\<forall>c\<in>set (cells3 nx ny nz). ?Q c cm'"
    by auto
  have "filled arr 0 ?N cm'"
    unfolding filled_def
  proof (intro allI impI)
    fix c assume h: "inside ?N c \<and> present arr c \<and> dim3 c \<le> 0"
    then obtain v where v: "inside (nx, ny, nz) v" "c = twice v"
      using even_cell [of nx ny nz c] by auto
    have vin: "v \<in> set (cells3 nx ny nz)"
      using v(1) by (cases v) (auto simp: set_cells3 inside_def)
    have "cell arr v \<noteq> 0"
      using h v(2) present_twice [of arr] by (cases v) simp
    then show "cell cm' c = 1" using r(3) vin v by blast
  qed
  then show ?thesis using flat r(1,2) by simp
qed

subsection \<open>The four passes\<close>

lemma edge_pass:
  assumes odd: "odd Nx" "odd Ny" "odd Nz" and N: "N = (Nx, Ny, Nz)"
    and start: "sound arr N cm0" "filled arr 0 N cm0"
  shows "\<exists>cm'. scan3 (intN N) (edge_body (intN N)) cm0 = Inr cm'
           \<and> sound arr N cm' \<and> filled arr (Suc 0) N cm'"
    and "\<exists>cm'. scan3 (intN N) (edge_body_snap (intN N) cm0) cm0 = Inr cm'
           \<and> sound arr N cm' \<and> filled arr (Suc 0) N cm'"
proof -
  have Rc: "edge_rule N rd c" if "filled arr 0 N rd" "inside N c" "present arr c" "dim3 c = Suc 0"
    for rd c
    using edge_rule_complete [OF odd] that unfolding N by blast
  have m1: "(\<lambda>s. s) = (\<lambda>s::ndarray. s) \<or> (\<lambda>s. s) = (\<lambda>s. cm0)"
    by (rule disjI1) (rule refl)
  have m2: "(\<lambda>s. cm0) = (\<lambda>s::ndarray. s) \<or> (\<lambda>s. cm0) = (\<lambda>s::ndarray. cm0)"
    by (rule disjI2) (rule refl)
  have Rs: "edge_rule N rd c" if "edge_rule N rd c" for rd c
    by (rule that)
  have e: "(\<lambda>ix s. edge_body_snap (intN N) s ix s) = edge_body (intN N)"
    by (intro ext) (simp add: edge_body_self)
  show "\<exists>cm'. scan3 (intN N) (edge_body (intN N)) cm0 = Inr cm'
           \<and> sound arr N cm' \<and> filled arr (Suc 0) N cm'"
    using pass_generic [where R = "edge_rule N" and sel = "\<lambda>s. s"
        and body = "edge_body_snap (intN N)", OF odd N edge_body_snap_char Rs Rc start m1]
    unfolding e .
  show "\<exists>cm'. scan3 (intN N) (edge_body_snap (intN N) cm0) cm0 = Inr cm'
           \<and> sound arr N cm' \<and> filled arr (Suc 0) N cm'"
    using pass_generic [where R = "edge_rule N" and sel = "\<lambda>s. cm0"
        and body = "edge_body_snap (intN N)", OF odd N edge_body_snap_char Rs Rc start m2] .
qed

lemma face_pass:
  assumes odd: "odd Nx" "odd Ny" "odd Nz" and N: "N = (Nx, Ny, Nz)"
    and start: "sound arr N cm0" "filled arr (Suc 0) N cm0"
  shows "\<exists>cm'. scan3 (intN N) (face_body (intN N)) cm0 = Inr cm'
           \<and> sound arr N cm' \<and> filled arr (Suc (Suc 0)) N cm'"
    and "\<exists>cm'. scan3 (intN N) (face_body_snap (intN N) cm0) cm0 = Inr cm'
           \<and> sound arr N cm' \<and> filled arr (Suc (Suc 0)) N cm'"
proof -
  have Rc: "face_rule N rd c"
    if "filled arr (Suc 0) N rd" "inside N c" "present arr c" "dim3 c = Suc (Suc 0)" for rd c
    using face_rule_complete [OF odd] that unfolding N by blast
  have Rs: "edge_rule N rd c" if "face_rule N rd c" for rd c
    using that by (auto simp: face_rule_def edge_rule_def)
  have m1: "(\<lambda>s. s) = (\<lambda>s::ndarray. s) \<or> (\<lambda>s. s) = (\<lambda>s. cm0)"
    by (rule disjI1) (rule refl)
  have m2: "(\<lambda>s. cm0) = (\<lambda>s::ndarray. s) \<or> (\<lambda>s. cm0) = (\<lambda>s::ndarray. cm0)"
    by (rule disjI2) (rule refl)
  have e: "(\<lambda>ix s. face_body_snap (intN N) s ix s) = face_body (intN N)"
    by (intro ext) (simp add: face_body_self)
  show "\<exists>cm'. scan3 (intN N) (face_body (intN N)) cm0 = Inr cm'
           \<and> sound arr N cm' \<and> filled arr (Suc (Suc 0)) N cm'"
    using pass_generic [where R = "face_rule N" and sel = "\<lambda>s. s"
        and body = "face_body_snap (intN N)", OF odd N face_body_snap_char Rs Rc start m1]
    unfolding e .
  show "\<exists>cm'. scan3 (intN N) (face_body_snap (intN N) cm0) cm0 = Inr cm'
           \<and> sound arr N cm' \<and> filled arr (Suc (Suc 0)) N cm'"
    using pass_generic [where R = "face_rule N" and sel = "\<lambda>s. cm0"
        and body = "face_body_snap (intN N)", OF odd N face_body_snap_char Rs Rc start m2] .
qed

lemma cube_pass:
  assumes odd: "odd Nx" "odd Ny" "odd Nz" and N: "N = (Nx, Ny, Nz)"
    and start: "sound arr N cm0" "filled arr (Suc (Suc 0)) N cm0"
  shows "\<exists>cm'. scan3 (intN N) (cube_body (intN N)) cm0 = Inr cm'
           \<and> sound arr N cm' \<and> filled arr (Suc (Suc (Suc 0))) N cm'"
    and "\<exists>cm'. scan3 (intN N) (cube_body_snap (intN N) cm0) cm0 = Inr cm'
           \<and> sound arr N cm' \<and> filled arr (Suc (Suc (Suc 0))) N cm'"
proof -
  have Rc: "cube_rule N rd c"
    if "filled arr (Suc (Suc 0)) N rd" "inside N c" "present arr c" "dim3 c = Suc (Suc (Suc 0))"
    for rd c
    using cube_rule_complete [OF odd] that unfolding N by blast
  have Rs: "edge_rule N rd c" if "cube_rule N rd c" for rd c
    using that by (auto simp: cube_rule_def edge_rule_def)
  have m1: "(\<lambda>s. s) = (\<lambda>s::ndarray. s) \<or> (\<lambda>s. s) = (\<lambda>s. cm0)"
    by (rule disjI1) (rule refl)
  have m2: "(\<lambda>s. cm0) = (\<lambda>s::ndarray. s) \<or> (\<lambda>s. cm0) = (\<lambda>s::ndarray. cm0)"
    by (rule disjI2) (rule refl)
  have e: "(\<lambda>ix s. cube_body_snap (intN N) s ix s) = cube_body (intN N)"
    by (intro ext) (simp add: cube_body_self)
  show "\<exists>cm'. scan3 (intN N) (cube_body (intN N)) cm0 = Inr cm'
           \<and> sound arr N cm' \<and> filled arr (Suc (Suc (Suc 0))) N cm'"
    using pass_generic [where R = "cube_rule N" and sel = "\<lambda>s. s"
        and body = "cube_body_snap (intN N)", OF odd N cube_body_snap_char Rs Rc start m1]
    unfolding e .
  show "\<exists>cm'. scan3 (intN N) (cube_body_snap (intN N) cm0) cm0 = Inr cm'
           \<and> sound arr N cm' \<and> filled arr (Suc (Suc (Suc 0))) N cm'"
    using pass_generic [where R = "cube_rule N" and sel = "\<lambda>s. cm0"
        and body = "cube_body_snap (intN N)", OF odd N cube_body_snap_char Rs Rc start m2] .
qed

lemma dim3_le3: "dim3 c \<le> Suc (Suc (Suc 0))"
proof -
  obtain x y z where c: "c = (x, y, z)" by (cases c) auto
  have "x mod 2 < 2" "y mod 2 < 2" "z mod 2 < 2" by simp_all
  then show ?thesis unfolding c dim3_def by simp
qed

lemma finished_iff:
  "sound arr N cm \<and> filled arr (Suc (Suc (Suc 0))) N cm \<longleftrightarrow> finished arr N cm"
proof
  assume h: "sound arr N cm \<and> filled arr (Suc (Suc (Suc 0))) N cm"
  show "finished arr N cm"
    unfolding finished_def
  proof (intro conjI allI impI)
    show "grid_ok N cm" using h by (simp add: sound_def)
    fix c assume c: "inside N c"
    have "cell cm c = 0 \<or> cell cm c = 1 \<and> present arr c"
      using h c unfolding sound_def by blast
    moreover have "present arr c \<Longrightarrow> cell cm c = 1"
      using h c dim3_le3 [of c] unfolding filled_def by blast
    ultimately show "cell cm c = (if present arr c then 1 else 0)" by auto
  qed
next
  assume "finished arr N cm"
  then show "sound arr N cm \<and> filled arr (Suc (Suc (Suc 0))) N cm"
    unfolding finished_def sound_def filled_def by auto
qed

lemma lattice_facts:
  assumes "0 < nx" "0 < ny" "0 < nz"
  shows "odd (2 * nx - 1)" "odd (2 * ny - 1)" "odd (2 * nz - 1)"
    "intN (lattice (nx, ny, nz)) = (2 * int nx - 1, 2 * int ny - 1, 2 * int nz - 1)"
proof -
  show "odd (2 * nx - 1)" "odd (2 * ny - 1)" "odd (2 * nz - 1)"
    using assms by auto
  have "int (2 * nx - 1) = 2 * int nx - 1" "int (2 * ny - 1) = 2 * int ny - 1"
    "int (2 * nz - 1) = 2 * int nz - 1"
    using assms by linarith+
  then show "intN (lattice (nx, ny, nz)) = (2 * int nx - 1, 2 * int ny - 1, 2 * int nz - 1)"
    by (simp add: intN_def lattice_def)
qed

lemma CubeMap_char:
  assumes sh: "shape arr = [nx, ny, nz]" and pos: "0 < nx" "0 < ny" "0 < nz"
  shows "\<exists>cm. CubeMap arr = Inr cm \<and> finished arr (lattice (nx, ny, nz)) cm"
proof -
  let ?N = "lattice (nx, ny, nz)"
  let ?z = "\<lparr>shape = [2 * nx - 1, 2 * ny - 1, 2 * nz - 1],
          data = replicate ((2 * nx - 1) * (2 * ny - 1) * (2 * nz - 1)) 0\<rparr>"
  note lf = lattice_facts [OF pos]
  have N: "?N = (2 * nx - 1, 2 * ny - 1, 2 * nz - 1)" by (simp add: lattice_def)
  have z: "sound arr ?N ?z" unfolding N by (rule zeros_sound)
  from vertex_pass [OF sh z] obtain c1 where
    c1: "scan3 (int nx, int ny, int nz) (vertex_body arr) ?z = Inr c1"
      "sound arr ?N c1" "filled arr 0 ?N c1" by blast
  from edge_pass(1) [OF lf(1,2,3) N c1(2,3)] obtain c2 where
    c2: "scan3 (intN ?N) (edge_body (intN ?N)) c1 = Inr c2"
      "sound arr ?N c2" "filled arr (Suc 0) ?N c2" by blast
  from face_pass(1) [OF lf(1,2,3) N c2(2,3)] obtain c3 where
    c3: "scan3 (intN ?N) (face_body (intN ?N)) c2 = Inr c3"
      "sound arr ?N c3" "filled arr (Suc (Suc 0)) ?N c3" by blast
  from cube_pass(1) [OF lf(1,2,3) N c3(2,3)] obtain c4 where
    c4: "scan3 (intN ?N) (cube_body (intN ?N)) c3 = Inr c4"
      "sound arr ?N c4" "filled arr (Suc (Suc (Suc 0))) ?N c4" by blast
  have "CubeMap arr = Inr c4"
    using c1(1) c2(1) c3(1) c4(1) unfolding lf(4)
    by (simp add: CubeMap_def sh np_zeros_lattice [OF pos] ebind_def)
  then show ?thesis using c4(2,3) finished_iff by blast
qed

lemma CubeMap_jacobi_char:
  assumes sh: "shape arr = [nx, ny, nz]" and pos: "0 < nx" "0 < ny" "0 < nz"
  shows "\<exists>cm. CubeMap_jacobi arr = Inr cm \<and> finished arr (lattice (nx, ny, nz)) cm"
proof -
  let ?N = "lattice (nx, ny, nz)"
  let ?z = "\<lparr>shape = [2 * nx - 1, 2 * ny - 1, 2 * nz - 1],
          data = replicate ((2 * nx - 1) * (2 * ny - 1) * (2 * nz - 1)) 0\<rparr>"
  note lf = lattice_facts [OF pos]
  have N: "?N = (2 * nx - 1, 2 * ny - 1, 2 * nz - 1)" by (simp add: lattice_def)
  have z: "sound arr ?N ?z" unfolding N by (rule zeros_sound)
  from vertex_pass [OF sh z] obtain c1 where
    c1: "scan3 (int nx, int ny, int nz) (vertex_body arr) ?z = Inr c1"
      "sound arr ?N c1" "filled arr 0 ?N c1" by blast
  from edge_pass(2) [OF lf(1,2,3) N c1(2,3)] obtain c2 where
    c2: "scan3 (intN ?N) (edge_body_snap (intN ?N) c1) c1 = Inr c2"
      "sound arr ?N c2" "filled arr (Suc 0) ?N c2" by blast
  from face_pass(2) [OF lf(1,2,3) N c2(2,3)] obtain c3 where
    c3: "scan3 (intN ?N) (face_body_snap (intN ?N) c2) c2 = Inr c3"
      "sound arr ?N c3" "filled arr (Suc (Suc 0)) ?N c3" by blast
  from cube_pass(2) [OF lf(1,2,3) N c3(2,3)] obtain c4 where
    c4: "scan3 (intN ?N) (cube_body_snap (intN ?N) c3) c3 = Inr c4"
      "sound arr ?N c4" "filled arr (Suc (Suc (Suc 0))) ?N c4" by blast
  have "CubeMap_jacobi arr = Inr c4"
    using c1(1) c2(1) c3(1) c4(1) unfolding lf(4)
    by (simp add: CubeMap_jacobi_def sh np_zeros_lattice [OF pos] ebind_def)
  then show ?thesis using c4(2,3) finished_iff by blast
qed

lemma CubeMap_jacobi_ef_char:
  assumes sh: "shape arr = [nx, ny, nz]" and pos: "0 < nx" "0 < ny" "0 < nz"
  shows "\<exists>cm. CubeMap_jacobi_ef arr = Inr cm \<and> finished arr (lattice (nx, ny, nz)) cm"
proof -
  let ?N = "lattice (nx, ny, nz)"
  let ?z = "\<lparr>shape = [2 * nx - 1, 2 * ny - 1, 2 * nz - 1],
          data = replicate ((2 * nx - 1) * (2 * ny - 1) * (2 * nz - 1)) 0\<rparr>"
  note lf = lattice_facts [OF pos]
  have N: "?N = (2 * nx - 1, 2 * ny - 1, 2 * nz - 1)" by (simp add: lattice_def)
  have z: "sound arr ?N ?z" unfolding N by (rule zeros_sound)
  from vertex_pass [OF sh z] obtain c1 where
    c1: "scan3 (int nx, int ny, int nz) (vertex_body arr) ?z = Inr c1"
      "sound arr ?N c1" "filled arr 0 ?N c1" by blast
  from edge_pass(2) [OF lf(1,2,3) N c1(2,3)] obtain c2 where
    c2: "scan3 (intN ?N) (edge_body_snap (intN ?N) c1) c1 = Inr c2"
      "sound arr ?N c2" "filled arr (Suc 0) ?N c2" by blast
  from face_pass(2) [OF lf(1,2,3) N c2(2,3)] obtain c3 where
    c3: "scan3 (intN ?N) (face_body_snap (intN ?N) c2) c2 = Inr c3"
      "sound arr ?N c3" "filled arr (Suc (Suc 0)) ?N c3" by blast
  from cube_pass(1) [OF lf(1,2,3) N c3(2,3)] obtain c4 where
    c4: "scan3 (intN ?N) (cube_body (intN ?N)) c3 = Inr c4"
      "sound arr ?N c4" "filled arr (Suc (Suc (Suc 0))) ?N c4" by blast
  have "CubeMap_jacobi_ef arr = Inr c4"
    using c1(1) c2(1) c3(1) c4(1) unfolding lf(4)
    by (simp add: CubeMap_jacobi_ef_def sh np_zeros_lattice [OF pos] ebind_def)
  then show ?thesis using c4(2,3) finished_iff by blast
qed

subsection \<open>Arrays with the same cells\<close>

lemma pair_surj: "n < A * B \<Longrightarrow> \<exists>a b. a < A \<and> b < B \<and> n = a * B + (b::nat)"
proof -
  assume h: "n < A * B"
  then have B: "0 < B" by (cases B) auto
  have "n div B < A" using h by (simp add: less_mult_imp_div_less)
  moreover have "n mod B < B" using B by simp
  moreover have "n = (n div B) * B + n mod B" by simp
  ultimately show ?thesis by blast
qed

lemma off_surj:
  assumes "n < nx * ny * nz"
  shows "\<exists>c. inside (nx, ny, nz) c \<and> n = off ny nz c"
proof -
  from pair_surj [OF assms] obtain m k where mk: "m < nx * ny" "k < nz" "n = m * nz + k"
    by blast
  from pair_surj [OF mk(1)] obtain i j where ij: "i < nx" "j < ny" "m = i * ny + j"
    by blast
  have "inside (nx, ny, nz) (i, j, k)" using ij mk by (simp add: inside_def)
  moreover have "n = off ny nz (i, j, k)" using ij mk by (simp add: off_def)
  ultimately show ?thesis by blast
qed

lemma grid_elems:
  assumes "grid_ok N cm" "\<And>c. inside N c \<Longrightarrow> P (cell cm c)" "v \<in> set (data cm)"
  shows "P v"
proof -
  obtain Nx Ny Nz where N: "N = (Nx, Ny, Nz)" by (cases N) auto
  from assms(3) obtain n where n: "n < length (data cm)" "v = data cm ! n"
    by (auto simp: in_set_conv_nth)
  have sh: "shape cm = [Nx, Ny, Nz]" and len: "length (data cm) = Nx * Ny * Nz"
    using assms(1) N by (simp_all add: grid_ok_def)
  from off_surj [of n Nx Ny Nz] n(1) len obtain c where c: "inside N c" "n = off Ny Nz c"
    using N by auto
  have "cell cm c = v" using c(2) n(2) sh by (simp add: cell_def)
  then show ?thesis using assms(2) [OF c(1)] by simp
qed

lemma grid_data_eq:
  assumes "grid_ok N a" "grid_ok N b" "\<And>c. inside N c \<Longrightarrow> cell a c = cell b c"
  shows "data a = data b"
proof (rule nth_equalityI)
  obtain Nx Ny Nz where N: "N = (Nx, Ny, Nz)" by (cases N) auto
  have sa: "shape a = [Nx, Ny, Nz]" and la: "length (data a) = Nx * Ny * Nz"
    and sb: "shape b = [Nx, Ny, Nz]" and lb: "length (data b) = Nx * Ny * Nz"
    using assms(1,2) N by (simp_all add: grid_ok_def)
  show "length (data a) = length (data b)" using la lb by simp
  fix n assume "n < length (data a)"
  then obtain c where c: "inside N c" "n = off Ny Nz c"
    using off_surj [of n Nx Ny Nz] la N by auto
  show "data a ! n = data b ! n"
    using assms(3) [OF c(1)] c(2) sa sb by (simp add: cell_def)
qed

lemma grid_eq:
  fixes a b :: ndarray
  assumes "grid_ok N a" "grid_ok N b" "\<And>c. inside N c \<Longrightarrow> cell a c = cell b c"
  shows "a = b"
proof -
  have "data a = data b" by (rule grid_data_eq [OF assms])
  moreover have "shape a = shape b"
    using assms(1,2) by (cases N) (simp add: grid_ok_def)
  ultimately show ?thesis by simp
qed

lemma finished_cell:
  "finished arr N cm \<Longrightarrow> inside N c \<Longrightarrow> cell cm c = (if present arr c then 1 else 0)"
  unfolding finished_def by blast

lemma finished_unique:
  assumes "finished arr N a" "finished arr N b"
  shows "a = b"
proof (rule grid_eq [of N])
  show "grid_ok N a" "grid_ok N b" using assms by (simp_all add: finished_def)
  show "cell a c = cell b c" if "inside N c" for c
    using finished_cell [OF assms(1) that] finished_cell [OF assms(2) that] by simp
qed

lemma finished_binary:
  assumes "finished arr N cm" "v \<in> set (data cm)"
  shows "v = 0 \<or> v = 1"
proof (rule grid_elems [where P = "\<lambda>v. v = 0 \<or> v = 1", OF _ _ assms(2)])
  show "grid_ok N cm" using assms(1) by (simp add: finished_def)
  show "cell cm c = 0 \<or> cell cm c = 1" if "inside N c" for c
    using finished_cell [OF assms(1) that] by simp
qed

lemma ends_inside: "x < 2 * n - 1 \<Longrightarrow> a \<in> ends x \<Longrightarrow> a < n"
  by (auto simp: ends_def)

lemma absent_all_zero:
  assumes sh: "shape arr = [nx, ny, nz]" and wf: "wf_ndarray arr"
    and z: "\<forall>v\<in>set (data arr). v = 0" and ic: "inside (lattice (nx, ny, nz)) c"
  shows "\<not> present arr c"
proof -
  obtain x y z where c: "c = (x, y, z)" by (cases c) auto
  have i: "x < 2 * nx - 1" "y < 2 * ny - 1" "z < 2 * nz - 1"
    using ic c by (simp_all add: inside_def lattice_def)
  have a: "x div 2 \<in> ends x" "y div 2 \<in> ends y" "z div 2 \<in> ends z"
    by (simp_all add: ends_def)
  have "cell arr (x div 2, y div 2, z div 2) \<in> set (data arr)"
    using ends_inside [OF i(1) a(1)] ends_inside [OF i(2) a(2)] ends_inside [OF i(3) a(3)]
    by (intro cell_in_set [OF sh wf])
  then have "cell arr (x div 2, y div 2, z div 2) = 0" using z by blast
  then show ?thesis using a unfolding c present_def by auto
qed

subsection \<open>Corollaries for the properties\<close>

lemma euler_zero_of_no_ones:
  assumes "shape A = [nx, ny, nz]" and "wf_ndarray A" and no1: "\<forall>v\<in>set (data A). v \<noteq> 1"
  shows "EulerCharacteristic_seq A = Inr 0"
proof -
  have e: "{(x, y, z). x < nx \<and> y < ny \<and> z < nz \<and> cell A (x, y, z) = 1} = {}"
    using cell_in_set [OF assms(1,2)] no1 by auto
  show ?thesis unfolding euler_sum [OF assms(1)] e by simp
qed

lemma CubeMap_jacobi_zero_axis:
  assumes "shape A = [nx, ny, nz]" "nx = 0 \<or> ny = 0 \<or> nz = 0"
  shows "CubeMap_jacobi A = Inl ValueError"
  using assms by (auto simp: CubeMap_jacobi_def np_zeros_def ebind_def)

lemma CubeMap_jacobi_not_rank3:
  "length (shape A) \<noteq> 3 \<Longrightarrow> CubeMap_jacobi A = Inl ValueError"
  by (auto simp: CubeMap_jacobi_def split: list.splits)

lemma CubeMap_finished:
  assumes "shape arr = [nx, ny, nz]" "0 < nx" "0 < ny" "0 < nz" "CubeMap arr = Inr cm"
  shows "finished arr (lattice (nx, ny, nz)) cm"
  using CubeMap_char [OF assms(1-4)] assms(5) by auto

lemma getitem_finished:
  assumes "finished arr N cm" "inside N c"
  shows "getitem cm (ints c) = Inr (if present arr c then 1 else 0)"
  using getitem_cell [of N cm c] finished_cell [OF assms] assms by (simp add: finished_def)

lemma CubeMap_jacobi_ef_zero_axis:
  assumes "shape A = [nx, ny, nz]" "nx = 0 \<or> ny = 0 \<or> nz = 0"
  shows "CubeMap_jacobi_ef A = Inl ValueError"
  using assms by (auto simp: CubeMap_jacobi_ef_def np_zeros_def ebind_def)

lemma CubeMap_jacobi_ef_not_rank3:
  "length (shape A) \<noteq> 3 \<Longrightarrow> CubeMap_jacobi_ef A = Inl ValueError"
  by (auto simp: CubeMap_jacobi_ef_def split: list.splits)

subsection \<open>The array while a pass runs in place\<close>

lemma midway_cell:
  "midway arr q N pre s \<Longrightarrow> inside N c \<Longrightarrow>
   cell s c = (if c \<in> set pre then level arr (Suc q) c else level arr q c)"
  unfolding midway_def by blast

lemma midway_sound: "midway arr q N pre s \<Longrightarrow> sound arr N s"
  unfolding midway_def sound_def level_def by (auto split: if_splits)

lemma midway_filled: "midway arr q N pre s \<Longrightarrow> filled arr q N s"
  unfolding midway_def filled_def level_def by (auto split: if_splits)

lemma midway_high:
  "midway arr q N pre s \<Longrightarrow> inside N d \<Longrightarrow> Suc q < dim3 d \<Longrightarrow> cell s d = 0"
  using midway_cell [of arr q N pre s d] by (simp add: level_def)

lemma midway_later:
  "midway arr q N pre s \<Longrightarrow> inside N d \<Longrightarrow> d \<notin> set pre \<Longrightarrow> q < dim3 d \<Longrightarrow> cell s d = 0"
  using midway_cell [of arr q N pre s d] by (simp add: level_def)

lemma parity_mod:
  "odd x \<Longrightarrow> x mod 2 = Suc 0" "odd x \<Longrightarrow> (x + 1) mod 2 = 0" "odd x \<Longrightarrow> Suc x mod 2 = 0"
  "even x \<Longrightarrow> x mod 2 = 0" "even x \<Longrightarrow> (x + 1) mod 2 = Suc 0" "even x \<Longrightarrow> Suc x mod 2 = Suc 0"
  "even x \<Longrightarrow> 0 < x \<Longrightarrow> (x - 1) mod 2 = Suc 0"
  "even x \<Longrightarrow> 0 < x \<Longrightarrow> (x - Suc 0) mod 2 = Suc 0"
  by presburger+

lemma dim3_step:
  "odd x \<Longrightarrow> dim3 (x, y, z) = Suc (dim3 (x + 1, y, z))"
  "even x \<Longrightarrow> dim3 (x + 1, y, z) = Suc (dim3 (x, y, z))"
  "even x \<Longrightarrow> 0 < x \<Longrightarrow> dim3 (x - 1, y, z) = Suc (dim3 (x, y, z))"
  "odd y \<Longrightarrow> dim3 (x, y, z) = Suc (dim3 (x, y + 1, z))"
  "even y \<Longrightarrow> dim3 (x, y + 1, z) = Suc (dim3 (x, y, z))"
  "even y \<Longrightarrow> 0 < y \<Longrightarrow> dim3 (x, y - 1, z) = Suc (dim3 (x, y, z))"
  "odd z \<Longrightarrow> dim3 (x, y, z) = Suc (dim3 (x, y, z + 1))"
  "even z \<Longrightarrow> dim3 (x, y, z + 1) = Suc (dim3 (x, y, z))"
  "even z \<Longrightarrow> 0 < z \<Longrightarrow> dim3 (x, y, z - 1) = Suc (dim3 (x, y, z))"
  by (simp_all add: dim3_def parity_mod)

lemma sorted_product:
  fixes xs :: "'a::linorder list" and ys :: "'b::linorder list"
  assumes "sorted_wrt (<) xs" "sorted_wrt (<) ys"
  shows "sorted_wrt (<) (List.product xs ys)"
  using assms
proof (induction xs)
  case Nil
  then show ?case by simp
next
  case (Cons x xs)
  have "sorted_wrt (<) (map (Pair x) ys)"
    using Cons.prems(2) by (simp add: sorted_wrt_map less_prod_def)
  moreover have "sorted_wrt (<) (List.product xs ys)"
    using Cons by simp
  moreover have "\<forall>a\<in>set (map (Pair x) ys). \<forall>b\<in>set (List.product xs ys). a < b"
    using Cons.prems(1) by (auto simp: less_prod_def)
  ultimately show ?case by (simp add: sorted_wrt_append)
qed

lemma sorted_cells3: "sorted_wrt (<) (cells3 nx ny nz)"
  unfolding cells3_def by (intro sorted_product) simp_all

lemma scan_order:
  assumes "cells3 nx ny nz = pre @ (x, y, z) # post"
  shows "(x + 1, y, z) \<notin> set pre" "(x, y + 1, z) \<notin> set pre" "(x, y, z + 1) \<notin> set pre"
    "(x, y, z) \<notin> set pre"
proof -
  have "sorted_wrt (<) (pre @ (x, y, z) # post)"
    using sorted_cells3 [of nx ny nz] assms by simp
  then have b: "\<forall>d\<in>set pre. d < (x, y, z)"
    by (simp add: sorted_wrt_append)
  have "\<not> (x + 1, y, z) < (x, y, z)" "\<not> (x, y + 1, z) < (x, y, z)"
    "\<not> (x, y, z + 1) < (x, y, z)" "\<not> (x, y, z) < (x, y, z)"
    by (simp_all add: less_prod_def)
  then show "(x + 1, y, z) \<notin> set pre" "(x, y + 1, z) \<notin> set pre" "(x, y, z + 1) \<notin> set pre"
    "(x, y, z) \<notin> set pre"
    using b by blast+
qed

lemma pair_x_dim:
  assumes odd: "odd Nx" and m: "midway arr q (Nx, Ny, Nz) pre s"
    and ic: "inside (Nx, Ny, Nz) (x, y, z)" and ord: "(x + 1, y, z) \<notin> set pre"
    and z0: "cell s (x, y, z) = 0" and px: "pair_x (Nx, Ny, Nz) s (x, y, z)"
  shows "dim3 (x, y, z) \<le> Suc q"
proof (rule ccontr)
  assume "\<not> dim3 (x, y, z) \<le> Suc q"
  then have big: "Suc q < dim3 (x, y, z)" by simp
  have i: "x < Nx" "y < Ny" "z < Nz" using ic by (simp_all add: inside_def)
  have nz: "cell s (prv Nx x, y, z) \<noteq> 0" "cell s (nxt Nx x, y, z) \<noteq> 0"
    using px by (simp_all add: pair_x_def)
  show False
  proof (cases "odd x")
    case True
    have n: "nxt Nx x = x + 1" using True odd i by (simp add: nxt_odd)
    have "inside (Nx, Ny, Nz) (x + 1, y, z)"
      using nxt_lt [OF i(1)] n i by (simp add: inside_def)
    moreover have "q < dim3 (x + 1, y, z)"
      using big dim3_step(1) [OF True, of y z] by simp
    ultimately have "cell s (x + 1, y, z) = 0"
      using midway_later [OF m _ ord] by blast
    then show False using nz(2) n by simp
  next
    case False
    then have ev: "even x" by simp
    show False
    proof (cases "0 < x")
      case True
      have p: "prv Nx x = x - 1" using True i by (simp add: prv_cases)
      have "inside (Nx, Ny, Nz) (x - 1, y, z)"
        using i by (simp add: inside_def)
      moreover have "Suc q < dim3 (x - 1, y, z)"
        using big dim3_step(3) [OF ev True, of y z] by simp
      ultimately have "cell s (x - 1, y, z) = 0"
        using midway_high [OF m] by blast
      then show False using nz(1) p by simp
    next
      case x0: False
      show False
      proof (cases "Nx = 1")
        case True
        then have "prv Nx x = x" using x0 i by (simp add: prv_cases)
        then show False using nz(1) z0 by simp
      next
        case False
        then have n: "nxt Nx x = x + 1" and lt: "x + 1 < Nx"
          using x0 i by (simp_all add: nxt_cases)
        have "inside (Nx, Ny, Nz) (x + 1, y, z)"
          using lt i by (simp add: inside_def)
        moreover have "Suc q < dim3 (x + 1, y, z)"
          using big dim3_step(2) [OF ev, of y z] by simp
        ultimately have "cell s (x + 1, y, z) = 0"
          using midway_high [OF m] by blast
        then show False using nz(2) n by simp
      qed
    qed
  qed
qed

lemma pair_y_dim:
  assumes odd: "odd Ny" and m: "midway arr q (Nx, Ny, Nz) pre s"
    and ic: "inside (Nx, Ny, Nz) (x, y, z)" and ord: "(x, y + 1, z) \<notin> set pre"
    and z0: "cell s (x, y, z) = 0" and px: "pair_y (Nx, Ny, Nz) s (x, y, z)"
  shows "dim3 (x, y, z) \<le> Suc q"
proof (rule ccontr)
  assume "\<not> dim3 (x, y, z) \<le> Suc q"
  then have big: "Suc q < dim3 (x, y, z)" by simp
  have i: "x < Nx" "y < Ny" "z < Nz" using ic by (simp_all add: inside_def)
  have nz: "cell s (x, prv Ny y, z) \<noteq> 0" "cell s (x, nxt Ny y, z) \<noteq> 0"
    using px by (simp_all add: pair_y_def)
  show False
  proof (cases "odd y")
    case True
    have n: "nxt Ny y = y + 1" using True odd i by (simp add: nxt_odd)
    have "inside (Nx, Ny, Nz) (x, y + 1, z)"
      using nxt_lt [OF i(2)] n i by (simp add: inside_def)
    moreover have "q < dim3 (x, y + 1, z)"
      using big dim3_step(4) [OF True, of x z] by simp
    ultimately have "cell s (x, y + 1, z) = 0"
      using midway_later [OF m _ ord] by blast
    then show False using nz(2) n by simp
  next
    case False
    then have ev: "even y" by simp
    show False
    proof (cases "0 < y")
      case True
      have p: "prv Ny y = y - 1" using True i by (simp add: prv_cases)
      have "inside (Nx, Ny, Nz) (x, y - 1, z)"
        using i by (simp add: inside_def)
      moreover have "Suc q < dim3 (x, y - 1, z)"
        using big dim3_step(6) [OF ev True, of x z] by simp
      ultimately have "cell s (x, y - 1, z) = 0"
        using midway_high [OF m] by blast
      then show False using nz(1) p by simp
    next
      case x0: False
      show False
      proof (cases "Ny = 1")
        case True
        then have "prv Ny y = y" using x0 i by (simp add: prv_cases)
        then show False using nz(1) z0 by simp
      next
        case False
        then have n: "nxt Ny y = y + 1" and lt: "y + 1 < Ny"
          using x0 i by (simp_all add: nxt_cases)
        have "inside (Nx, Ny, Nz) (x, y + 1, z)"
          using lt i by (simp add: inside_def)
        moreover have "Suc q < dim3 (x, y + 1, z)"
          using big dim3_step(5) [OF ev, of x z] by simp
        ultimately have "cell s (x, y + 1, z) = 0"
          using midway_high [OF m] by blast
        then show False using nz(2) n by simp
      qed
    qed
  qed
qed

lemma pair_z_dim:
  assumes odd: "odd Nz" and m: "midway arr q (Nx, Ny, Nz) pre s"
    and ic: "inside (Nx, Ny, Nz) (x, y, z)" and ord: "(x, y, z + 1) \<notin> set pre"
    and z0: "cell s (x, y, z) = 0" and px: "pair_z (Nx, Ny, Nz) s (x, y, z)"
  shows "dim3 (x, y, z) \<le> Suc q"
proof (rule ccontr)
  assume "\<not> dim3 (x, y, z) \<le> Suc q"
  then have big: "Suc q < dim3 (x, y, z)" by simp
  have i: "x < Nx" "y < Ny" "z < Nz" using ic by (simp_all add: inside_def)
  have nz: "cell s (x, y, prv Nz z) \<noteq> 0" "cell s (x, y, nxt Nz z) \<noteq> 0"
    using px by (simp_all add: pair_z_def)
  show False
  proof (cases "odd z")
    case True
    have n: "nxt Nz z = z + 1" using True odd i by (simp add: nxt_odd)
    have "inside (Nx, Ny, Nz) (x, y, z + 1)"
      using nxt_lt [OF i(3)] n i by (simp add: inside_def)
    moreover have "q < dim3 (x, y, z + 1)"
      using big dim3_step(7) [OF True, of x y] by simp
    ultimately have "cell s (x, y, z + 1) = 0"
      using midway_later [OF m _ ord] by blast
    then show False using nz(2) n by simp
  next
    case False
    then have ev: "even z" by simp
    show False
    proof (cases "0 < z")
      case True
      have p: "prv Nz z = z - 1" using True i by (simp add: prv_cases)
      have "inside (Nx, Ny, Nz) (x, y, z - 1)"
        using i by (simp add: inside_def)
      moreover have "Suc q < dim3 (x, y, z - 1)"
        using big dim3_step(9) [OF ev True, of x y] by simp
      ultimately have "cell s (x, y, z - 1) = 0"
        using midway_high [OF m] by blast
      then show False using nz(1) p by simp
    next
      case x0: False
      show False
      proof (cases "Nz = 1")
        case True
        then have "prv Nz z = z" using x0 i by (simp add: prv_cases)
        then show False using nz(1) z0 by simp
      next
        case False
        then have n: "nxt Nz z = z + 1" and lt: "z + 1 < Nz"
          using x0 i by (simp_all add: nxt_cases)
        have "inside (Nx, Ny, Nz) (x, y, z + 1)"
          using lt i by (simp add: inside_def)
        moreover have "Suc q < dim3 (x, y, z + 1)"
          using big dim3_step(8) [OF ev, of x y] by simp
        ultimately have "cell s (x, y, z + 1) = 0"
          using midway_high [OF m] by blast
        then show False using nz(2) n by simp
      qed
    qed
  qed
qed

lemma rule_dim:
  assumes odd: "odd Nx" "odd Ny" "odd Nz" and m: "midway arr q (Nx, Ny, Nz) pre s"
    and ic: "inside (Nx, Ny, Nz) (x, y, z)"
    and ord: "(x + 1, y, z) \<notin> set pre" "(x, y + 1, z) \<notin> set pre" "(x, y, z + 1) \<notin> set pre"
    and z0: "cell s (x, y, z) = 0" and r: "edge_rule (Nx, Ny, Nz) s (x, y, z)"
  shows "present arr (x, y, z) \<and> dim3 (x, y, z) \<le> Suc q"
proof
  show "present arr (x, y, z)"
    by (rule rule_sound [OF odd midway_sound [OF m] ic r])
  show "dim3 (x, y, z) \<le> Suc q"
    using r pair_x_dim [OF odd(1) m ic ord(1) z0] pair_y_dim [OF odd(2) m ic ord(2) z0]
      pair_z_dim [OF odd(3) m ic ord(3) z0]
    unfolding edge_rule_def by blast
qed

lemma level_cases: "level arr q c = 0 \<or> level arr q c = 1"
  by (simp add: level_def)

lemma level_mono: "level arr q c = 1 \<Longrightarrow> level arr (Suc q) c = 1"
  by (simp add: level_def split: if_splits)

lemma level_next:
  "level arr q c = 0 \<and> level arr (Suc q) c = 1 \<longleftrightarrow> present arr c \<and> dim3 c = Suc q"
  by (auto simp: level_def split: if_splits)

text \<open>
  The condition of a pass, read from the array while the pass runs in place, holds at a
  cell that is still 0 exactly when the cell is present and of the dimension of the pass.
\<close>

lemma decision:
  assumes odd: "odd Nx" "odd Ny" "odd Nz" and N: "N = (Nx, Ny, Nz)"
    and m: "midway arr q N pre s" and ic: "inside N (x, y, z)"
    and ord: "(x, y, z) \<notin> set pre" "(x + 1, y, z) \<notin> set pre" "(x, y + 1, z) \<notin> set pre"
      "(x, y, z + 1) \<notin> set pre"
    and Rs: "R \<Longrightarrow> edge_rule N s (x, y, z)"
    and Rc: "filled arr q N s \<Longrightarrow> present arr (x, y, z) \<Longrightarrow> dim3 (x, y, z) = Suc q \<Longrightarrow> R"
  shows "cell s (x, y, z) = 0 \<and> R \<longleftrightarrow> present arr (x, y, z) \<and> dim3 (x, y, z) = Suc q"
proof
  have c: "cell s (x, y, z) = level arr q (x, y, z)"
    using midway_cell [OF m ic] ord(1) by simp
  {
    assume h: "cell s (x, y, z) = 0 \<and> R"
    then have "present arr (x, y, z) \<and> dim3 (x, y, z) \<le> Suc q"
      using rule_dim [OF odd m [unfolded N] ic [unfolded N] ord(2,3,4)] Rs N by simp
    moreover have "\<not> (present arr (x, y, z) \<and> dim3 (x, y, z) \<le> q)"
      using h c by (simp add: level_def split: if_splits)
    ultimately show "present arr (x, y, z) \<and> dim3 (x, y, z) = Suc q" by auto
  }
  {
    assume h: "present arr (x, y, z) \<and> dim3 (x, y, z) = Suc q"
    then have "R" using Rc midway_filled [OF m] by simp
    moreover have "cell s (x, y, z) = 0" using h c by (simp add: level_def)
    ultimately show "cell s (x, y, z) = 0 \<and> R" by simp
  }
qed

lemma midway_step:
  assumes m: "midway arr q N pre s" and ic: "inside N c" and nin: "c \<notin> set pre"
    and dec: "cell s c = 0 \<and> R \<longleftrightarrow> present arr c \<and> dim3 c = Suc q"
  shows "midway arr q N (pre @ [c]) (if cell s c = 0 \<and> R then put s c else s)"
proof -
  let ?s' = "if cell s c = 0 \<and> R then put s c else s"
  have g: "grid_ok N s" using m by (simp add: midway_def)
  have c: "cell s c = level arr q c" using midway_cell [OF m ic] nin by simp
  have val: "cell ?s' d = (if d = c \<and> cell s c = 0 \<and> R then 1 else cell s d)"
    if "inside N d" for d
    using cell_put [OF g ic that] by auto
  have "cell ?s' d = (if d \<in> set (pre @ [c]) then level arr (Suc q) d else level arr q d)"
    if d: "inside N d" for d
  proof (cases "d = c")
    case True
    show ?thesis
    proof (cases "cell s c = 0 \<and> R")
      case True
      then have "level arr (Suc q) c = 1" using dec level_next [of arr q c] by simp
      then show ?thesis using val [OF d] True \<open>d = c\<close> by simp
    next
      case False
      then have "\<not> (level arr q c = 0 \<and> level arr (Suc q) c = 1)"
        using dec level_next [of arr q c] by simp
      then have "level arr (Suc q) c = level arr q c"
        using level_cases [of arr q c] level_cases [of arr "Suc q" c] level_mono [of arr q c]
        by auto
      then show ?thesis using val [OF d] False \<open>d = c\<close> c by simp
    qed
  next
    case False
    then show ?thesis using val [OF d] midway_cell [OF m d] by simp
  qed
  moreover have "grid_ok N ?s'" using g by (simp add: put_grid_ok)
  ultimately show ?thesis unfolding midway_def by blast
qed

lemma in_place_prefix:
  fixes body :: "ndarray \<Rightarrow> int \<times> int \<times> int \<Rightarrow> ndarray \<Rightarrow> error + ndarray"
  assumes odd: "odd Nx" "odd Ny" "odd Nz" and N: "N = (Nx, Ny, Nz)"
    and char: "\<And>rd cm c. grid_ok N rd \<Longrightarrow> grid_ok N cm \<Longrightarrow> inside N c \<Longrightarrow>
         body rd (ints c) cm = Inr (if cell rd c = 0 \<and> R rd c then put cm c else cm)"
    and Rs: "\<And>rd c. R rd c \<Longrightarrow> edge_rule N rd c"
    and Rc: "\<And>rd c. filled arr q N rd \<Longrightarrow> inside N c \<Longrightarrow>
         present arr c \<Longrightarrow> dim3 c = Suc q \<Longrightarrow> R rd c"
    and start: "midway arr q N [] c0"
    and n: "n \<le> length (cells3 Nx Ny Nz)"
  shows "\<exists>s. efold (\<lambda>d s. body s (ints d) s) (take n (cells3 Nx Ny Nz)) c0 = Inr s
           \<and> midway arr q N (take n (cells3 Nx Ny Nz)) s"
  using n
proof (induction n)
  case 0
  then show ?case using start by simp
next
  case (Suc n)
  let ?cs = "cells3 Nx Ny Nz"
  let ?f = "\<lambda>d s. body s (ints d) s"
  have lt: "n < length ?cs" using Suc.prems by simp
  from Suc.IH lt obtain s0 where
    s0: "efold ?f (take n ?cs) c0 = Inr s0" "midway arr q N (take n ?cs) s0" by auto
  obtain x y z where c: "?cs ! n = (x, y, z)" by (cases "?cs ! n") auto
  have split: "?cs = take n ?cs @ (x, y, z) # drop (Suc n) ?cs"
    using id_take_nth_drop [OF lt] c by simp
  have "(x, y, z) \<in> set ?cs" using nth_mem [OF lt] c by simp
  then have ic: "inside N (x, y, z)" by (simp add: set_cells3 N inside_def)
  note ord = scan_order [OF split]
  have g: "grid_ok N s0" using s0(2) by (simp add: midway_def)
  have dec: "cell s0 (x, y, z) = 0 \<and> R s0 (x, y, z)
      \<longleftrightarrow> present arr (x, y, z) \<and> dim3 (x, y, z) = Suc q"
    using decision [OF odd N s0(2) ic ord(4) ord(1,2,3), of "R s0 (x, y, z)"]
      Rs [of s0 "(x, y, z)"] Rc [OF _ ic, of s0] by blast
  have "?f (x, y, z) s0 =
      Inr (if cell s0 (x, y, z) = 0 \<and> R s0 (x, y, z) then put s0 (x, y, z) else s0)"
    by (rule char [OF g g ic])
  moreover have "midway arr q N (take n ?cs @ [(x, y, z)])
      (if cell s0 (x, y, z) = 0 \<and> R s0 (x, y, z) then put s0 (x, y, z) else s0)"
    by (rule midway_step [OF s0(2) ic ord(4) dec])
  moreover have "take (Suc n) ?cs = take n ?cs @ [(x, y, z)]"
    using take_Suc_conv_app_nth [OF lt] c by simp
  ultimately show ?case
    using s0(1) by (simp add: efold_append ebind_def)
qed

lemma iteration_agrees:
  fixes body :: "ndarray \<Rightarrow> int \<times> int \<times> int \<Rightarrow> ndarray \<Rightarrow> error + ndarray"
  assumes odd: "odd Nx" "odd Ny" "odd Nz" and N: "N = (Nx, Ny, Nz)"
    and char: "\<And>rd cm c. grid_ok N rd \<Longrightarrow> grid_ok N cm \<Longrightarrow> inside N c \<Longrightarrow>
         body rd (ints c) cm = Inr (if cell rd c = 0 \<and> R rd c then put cm c else cm)"
    and Rs: "\<And>rd c. R rd c \<Longrightarrow> edge_rule N rd c"
    and Rc: "\<And>rd c. filled arr q N rd \<Longrightarrow> inside N c \<Longrightarrow>
         present arr c \<Longrightarrow> dim3 c = Suc q \<Longrightarrow> R rd c"
    and start: "midway arr q N [] c0"
    and n: "n < length (cells3 Nx Ny Nz)"
    and run: "efold (\<lambda>d s. body s (ints d) s) (take n (cells3 Nx Ny Nz)) c0 = Inr s"
  shows "body s (ints (cells3 Nx Ny Nz ! n)) s = body c0 (ints (cells3 Nx Ny Nz ! n)) s"
proof -
  let ?cs = "cells3 Nx Ny Nz"
  have "n \<le> length ?cs" using n by simp
  from in_place_prefix [OF odd N char Rs Rc start this] obtain s' where
    "efold (\<lambda>d s. body s (ints d) s) (take n ?cs) c0 = Inr s'" "midway arr q N (take n ?cs) s'"
    by blast
  then have m: "midway arr q N (take n ?cs) s" using run by simp
  obtain x y z where c: "?cs ! n = (x, y, z)" by (cases "?cs ! n") auto
  have split: "?cs = take n ?cs @ (x, y, z) # drop (Suc n) ?cs"
    using id_take_nth_drop [OF n] c by simp
  have "(x, y, z) \<in> set ?cs" using nth_mem [OF n] c by simp
  then have ic: "inside N (x, y, z)" by (simp add: set_cells3 N inside_def)
  note ord = scan_order [OF split]
  have g: "grid_ok N s" and g0: "grid_ok N c0"
    using m start by (simp_all add: midway_def)
  have "cell s (x, y, z) = 0 \<and> R s (x, y, z)
      \<longleftrightarrow> present arr (x, y, z) \<and> dim3 (x, y, z) = Suc q"
    using decision [OF odd N m ic ord(4) ord(1,2,3), of "R s (x, y, z)"]
      Rs [of s "(x, y, z)"] Rc [OF _ ic, of s] by blast
  moreover have "cell c0 (x, y, z) = 0 \<and> R c0 (x, y, z)
      \<longleftrightarrow> present arr (x, y, z) \<and> dim3 (x, y, z) = Suc q"
    using decision [OF odd N start ic, of "R c0 (x, y, z)"]
      Rs [of c0 "(x, y, z)"] Rc [OF _ ic, of c0] by simp
  ultimately show ?thesis
    unfolding c char [OF g g ic] char [OF g0 g ic] by simp
qed

lemma dim3_twice: "dim3 (twice c) = 0"
  by (cases c) (simp add: dim3_def twice_def)

lemma vertex_pass_flat:
  assumes sh: "shape arr = [nx, ny, nz]" and g0: "grid_ok (lattice (nx, ny, nz)) cm0"
    and f0: "\<forall>d. inside (lattice (nx, ny, nz)) d \<longrightarrow> cell cm0 d \<noteq> 0 \<longrightarrow> dim3 d = 0"
  shows "\<exists>cm'. scan3 (int nx, int ny, int nz) (vertex_body arr) cm0 = Inr cm'
           \<and> (\<forall>d. inside (lattice (nx, ny, nz)) d \<longrightarrow> cell cm' d \<noteq> 0 \<longrightarrow> dim3 d = 0)"
proof -
  let ?N = "lattice (nx, ny, nz)"
  let ?I = "\<lambda>s. grid_ok ?N s \<and> (\<forall>d. inside ?N d \<longrightarrow> cell s d \<noteq> 0 \<longrightarrow> dim3 d = 0)"
  let ?Q = "\<lambda>(v :: nat \<times> nat \<times> nat) (s :: ndarray). True"
  let ?f = "\<lambda>c. vertex_body arr (ints c)"
  have flat: "scan3 (int nx, int ny, int nz) (vertex_body arr) cm0 = efold ?f (cells3 nx ny nz) cm0"
    unfolding ints_def by (simp add: scan3_flat)
  have step: "\<exists>s'. ?f c s = Inr s' \<and> ?I s' \<and> ?Q c s' \<and> (\<forall>d. ?Q d s \<longrightarrow> ?Q d s')"
    if cin: "c \<in> set (cells3 nx ny nz)" and Is: "?I s" for c s
  proof -
    have ic: "inside (nx, ny, nz) c" using cin by (auto simp: set_cells3 inside_def)
    have it: "inside ?N (twice c)" by (rule inside_twice [OF ic])
    have gs: "grid_ok ?N s" using Is by simp
    define s' where "s' = (if cell arr c \<noteq> 0 then put s (twice c) else s)"
    have eq: "?f c s = Inr s'"
      using vertex_body_char [OF sh gs ic] by (simp add: s'_def)
    have val: "cell s' d = (if d = twice c \<and> cell arr c \<noteq> 0 then 1 else cell s d)"
      if "inside ?N d" for d
      using cell_put [OF gs it that] by (auto simp: s'_def)
    have "grid_ok ?N s'" using gs by (simp add: s'_def put_grid_ok)
    moreover have "dim3 d = 0" if "inside ?N d" "cell s' d \<noteq> 0" for d
    proof (cases "d = twice c \<and> cell arr c \<noteq> 0")
      case True
      then show ?thesis by (simp add: dim3_twice)
    next
      case False
      then have "cell s' d = cell s d" using val [OF that(1)] by auto
      then have "cell s d \<noteq> 0" using that(2) by simp
      then show ?thesis using Is that(1) by blast
    qed
    ultimately show ?thesis using eq by blast
  qed
  have I0: "?I cm0" using g0 f0 by blast
  have D: "\<forall>c\<in>{}. ?Q c cm0" by simp
  from efold_rule [of ?I cm0 "{}" ?Q "cells3 nx ny nz" ?f, OF I0 D step]
  obtain cm' where "efold ?f (cells3 nx ny nz) cm0 = Inr cm'" "?I cm'"
    by blast
  then show ?thesis unfolding flat by blast
qed

lemma CubeMap_stages:
  "shape arr = [nx, ny, nz] \<Longrightarrow> N = (2 * int nx - 1, 2 * int ny - 1, 2 * int nz - 1) \<Longrightarrow>
   CubeMap arr = ebind (edges_done arr) (\<lambda>cubemap.
     ebind (scan3 N (face_body N) cubemap) (\<lambda>cubemap. scan3 N (cube_body N) cubemap))"
  by (auto simp: CubeMap_def edges_done_def vertices_done_def ebind_def Let_def split: sum.splits)

lemma midway_start:
  assumes "sound arr N cm" "filled arr q N cm"
    and "\<forall>d. inside N d \<longrightarrow> cell cm d \<noteq> 0 \<longrightarrow> dim3 d \<le> q"
  shows "midway arr q N [] cm"
  unfolding midway_def
proof (intro conjI allI impI)
  show "grid_ok N cm" using assms(1) by (simp add: sound_def)
  fix c assume c: "inside N c"
  have a: "cell cm c = 0 \<or> cell cm c = 1 \<and> present arr c"
    using assms(1) c unfolding sound_def by blast
  have b: "present arr c \<and> dim3 c \<le> q \<Longrightarrow> cell cm c = 1"
    using assms(2) c unfolding filled_def by blast
  have d: "cell cm c \<noteq> 0 \<Longrightarrow> dim3 c \<le> q"
    using assms(3) c by blast
  show "cell cm c = (if c \<in> set [] then level arr (Suc q) c else level arr q c)"
    using a b d by (auto simp: level_def)
qed

lemma zeros_cell:
  assumes "inside (Nx, Ny, Nz) c"
  shows "cell \<lparr>shape = [Nx, Ny, Nz], data = replicate (Nx * Ny * Nz) 0\<rparr> c = 0"
proof -
  obtain x y z where c: "c = (x, y, z)" by (cases c) auto
  have "off Ny Nz (x, y, z) < Nx * Ny * Nz"
    using assms c by (intro off_lt) (simp_all add: inside_def)
  then show ?thesis by (simp add: cell_def c)
qed

lemma vertices_done_midway:
  assumes sh: "shape arr = [nx, ny, nz]" and v: "vertices_done arr = Inr c1"
  shows "0 < nx \<and> 0 < ny \<and> 0 < nz \<and> midway arr 0 (lattice (nx, ny, nz)) [] c1"
proof -
  let ?N = "lattice (nx, ny, nz)"
  let ?z = "\<lparr>shape = [2 * nx - 1, 2 * ny - 1, 2 * nz - 1],
          data = replicate ((2 * nx - 1) * (2 * ny - 1) * (2 * nz - 1)) 0\<rparr>"
  have pos: "0 < nx" "0 < ny" "0 < nz"
  proof -
    have "\<not> (nx = 0 \<or> ny = 0 \<or> nz = 0)"
    proof
      assume "nx = 0 \<or> ny = 0 \<or> nz = 0"
      then have "vertices_done arr = Inl ValueError"
        using sh by (auto simp: vertices_done_def np_zeros_def ebind_def)
      then show False using v by simp
    qed
    then show "0 < nx" "0 < ny" "0 < nz" by simp_all
  qed
  have N: "?N = (2 * nx - 1, 2 * ny - 1, 2 * nz - 1)" by (simp add: lattice_def)
  have z: "sound arr ?N ?z" unfolding N by (rule zeros_sound)
  have gz: "grid_ok ?N ?z" using z by (simp add: sound_def)
  have fz: "\<forall>d. inside ?N d \<longrightarrow> cell ?z d \<noteq> 0 \<longrightarrow> dim3 d = 0"
    using zeros_cell [of "2 * nx - 1" "2 * ny - 1" "2 * nz - 1"] unfolding N by blast
  have run: "scan3 (int nx, int ny, int nz) (vertex_body arr) ?z = Inr c1"
    using v sh by (simp add: vertices_done_def np_zeros_lattice [OF pos] ebind_def)
  from vertex_pass [OF sh z] run have s: "sound arr ?N c1" "filled arr 0 ?N c1" by auto
  from vertex_pass_flat [OF sh gz fz] run
  have f: "\<forall>d. inside ?N d \<longrightarrow> cell c1 d \<noteq> 0 \<longrightarrow> dim3 d \<le> 0" by auto
  show ?thesis using pos midway_start [OF s f] by simp
qed

lemma scan3_cells:
  "scan3 (intN (Nx, Ny, Nz)) body s = efold (\<lambda>d. body (ints d)) (cells3 Nx Ny Nz) s"
  unfolding intN_def ints_def by (simp add: scan3_flat)

lemma edge_iteration:
  assumes odd: "odd Nx" "odd Ny" "odd Nz" and N: "N = (Nx, Ny, Nz)"
    and start: "midway arr 0 N [] c0"
  shows "n \<le> length (cells3 Nx Ny Nz) \<Longrightarrow>
      \<exists>s. efold (\<lambda>d. edge_body (intN N) (ints d)) (take n (cells3 Nx Ny Nz)) c0 = Inr s
           \<and> midway arr 0 N (take n (cells3 Nx Ny Nz)) s"
    and "n < length (cells3 Nx Ny Nz) \<Longrightarrow>
      efold (\<lambda>d. edge_body (intN N) (ints d)) (take n (cells3 Nx Ny Nz)) c0 = Inr s \<Longrightarrow>
      edge_body (intN N) (ints (cells3 Nx Ny Nz ! n)) s
        = edge_body_snap (intN N) c0 (ints (cells3 Nx Ny Nz ! n)) s"
proof -
  have Rc: "edge_rule N rd c" if "filled arr 0 N rd" "inside N c" "present arr c" "dim3 c = Suc 0"
    for rd c
    using edge_rule_complete [OF odd] that unfolding N by blast
  have Rs: "edge_rule N rd c" if "edge_rule N rd c" for rd c
    by (rule that)
  have e: "(\<lambda>d s. edge_body_snap (intN N) s (ints d) s) = (\<lambda>d. edge_body (intN N) (ints d))"
    by (intro ext) (simp add: edge_body_self)
  show "n \<le> length (cells3 Nx Ny Nz) \<Longrightarrow>
      \<exists>s. efold (\<lambda>d. edge_body (intN N) (ints d)) (take n (cells3 Nx Ny Nz)) c0 = Inr s
           \<and> midway arr 0 N (take n (cells3 Nx Ny Nz)) s"
    using in_place_prefix [where body = "edge_body_snap (intN N)" and R = "edge_rule N",
        OF odd N edge_body_snap_char Rs Rc start]
    unfolding e .
  show "n < length (cells3 Nx Ny Nz) \<Longrightarrow>
      efold (\<lambda>d. edge_body (intN N) (ints d)) (take n (cells3 Nx Ny Nz)) c0 = Inr s \<Longrightarrow>
      edge_body (intN N) (ints (cells3 Nx Ny Nz ! n)) s
        = edge_body_snap (intN N) c0 (ints (cells3 Nx Ny Nz ! n)) s"
    using iteration_agrees [where body = "edge_body_snap (intN N)" and R = "edge_rule N",
        OF odd N edge_body_snap_char Rs Rc start]
    unfolding e edge_body_self [symmetric] .
qed

lemma face_iteration:
  assumes odd: "odd Nx" "odd Ny" "odd Nz" and N: "N = (Nx, Ny, Nz)"
    and start: "midway arr (Suc 0) N [] c0"
  shows "n < length (cells3 Nx Ny Nz) \<Longrightarrow>
      efold (\<lambda>d. face_body (intN N) (ints d)) (take n (cells3 Nx Ny Nz)) c0 = Inr s \<Longrightarrow>
      face_body (intN N) (ints (cells3 Nx Ny Nz ! n)) s
        = face_body_snap (intN N) c0 (ints (cells3 Nx Ny Nz ! n)) s"
proof -
  have Rc: "face_rule N rd c"
    if "filled arr (Suc 0) N rd" "inside N c" "present arr c" "dim3 c = Suc (Suc 0)" for rd c
    using face_rule_complete [OF odd] that unfolding N by blast
  have Rs: "edge_rule N rd c" if "face_rule N rd c" for rd c
    using that by (auto simp: face_rule_def edge_rule_def)
  have e: "(\<lambda>d s. face_body_snap (intN N) s (ints d) s) = (\<lambda>d. face_body (intN N) (ints d))"
    by (intro ext) (simp add: face_body_self)
  show "n < length (cells3 Nx Ny Nz) \<Longrightarrow>
      efold (\<lambda>d. face_body (intN N) (ints d)) (take n (cells3 Nx Ny Nz)) c0 = Inr s \<Longrightarrow>
      face_body (intN N) (ints (cells3 Nx Ny Nz ! n)) s
        = face_body_snap (intN N) c0 (ints (cells3 Nx Ny Nz ! n)) s"
    using iteration_agrees [where body = "face_body_snap (intN N)" and R = "face_rule N",
        OF odd N face_body_snap_char Rs Rc start]
    unfolding e face_body_self [symmetric] .
qed

lemma edges_done_midway:
  assumes sh: "shape arr = [nx, ny, nz]" and v: "edges_done arr = Inr c2"
  shows "0 < nx \<and> 0 < ny \<and> 0 < nz \<and> midway arr (Suc 0) (lattice (nx, ny, nz)) [] c2"
proof -
  let ?N = "lattice (nx, ny, nz)"
  let ?cs = "cells3 (2 * nx - 1) (2 * ny - 1) (2 * nz - 1)"
  have N: "?N = (2 * nx - 1, 2 * ny - 1, 2 * nz - 1)" by (simp add: lattice_def)
  obtain c1 where c1: "vertices_done arr = Inr c1"
    using v sh by (cases "vertices_done arr") (simp_all add: edges_done_def ebind_def Let_def)
  note vm = vertices_done_midway [OF sh c1]
  then have pos: "0 < nx" "0 < ny" "0 < nz" by simp_all
  note lf = lattice_facts [OF pos]
  have run: "scan3 (intN ?N) (edge_body (intN ?N)) c1 = Inr c2"
    using v sh c1 unfolding lf(4) by (simp add: edges_done_def ebind_def Let_def)
  then have run': "efold (\<lambda>d. edge_body (intN ?N) (ints d)) ?cs c1 = Inr c2"
    unfolding N scan3_cells .
  from edge_iteration(1) [OF lf(1,2,3) N, of arr c1 "length ?cs"] vm run'
  have m: "midway arr 0 ?N ?cs c2" by auto
  have "midway arr (Suc 0) ?N [] c2"
    unfolding midway_def
  proof (intro conjI allI impI)
    show "grid_ok ?N c2" using m by (simp add: midway_def)
    fix c assume c: "inside ?N c"
    then have "c \<in> set ?cs" by (cases c) (simp add: set_cells3 N inside_def)
    then show "cell c2 c = (if c \<in> set [] then level arr (Suc (Suc 0)) c else level arr (Suc 0) c)"
      using midway_cell [OF m c] by simp
  qed
  then show ?thesis using pos by simp
qed

section \<open>The Euler characteristic\<close>

text \<open>
  C2. For every three-dimensional array of 0/1 values, \<open>EulerCharacteristic_seq\<close> returns
  the sum, over the cells holding 1, of +1 where \<open>x + y + z\<close> is even and -1 where it is
  odd. The result is a signed integer: it is 0, 1 and -1 on the three arrays given.
\<close>

theorem euler_characteristic_formula:
  assumes "shape A = [nx, ny, nz]" and "wf_ndarray A" and "\<forall>v\<in>set (data A). v = 0 \<or> v = 1"
  shows "EulerCharacteristic_seq A =
           Inr (\<Sum>(x, y, z) \<in> {(x, y, z). x < nx \<and> y < ny \<and> z < nz \<and> cell A (x, y, z) = 1}.
                  if even (x + y + z) then 1 else - 1)
         \<and> EulerCharacteristic_seq \<lparr>shape = [1, 1, 1], data = [0]\<rparr> = Inr 0
         \<and> EulerCharacteristic_seq \<lparr>shape = [1, 1, 1], data = [1]\<rparr> = Inr 1
         \<and> EulerCharacteristic_seq \<lparr>shape = [2, 1, 1], data = [0, 1]\<rparr> = Inr (- 1)"
proof (intro conjI)
  show "EulerCharacteristic_seq A =
           Inr (\<Sum>(x, y, z) \<in> {(x, y, z). x < nx \<and> y < ny \<and> z < nz \<and> cell A (x, y, z) = 1}.
                  if even (x + y + z) then 1 else - 1)"
    by (rule euler_sum [OF assms(1)])
  show "EulerCharacteristic_seq \<lparr>shape = [1, 1, 1], data = [0]\<rparr> = Inr 0"
    by code_simp
  show "EulerCharacteristic_seq \<lparr>shape = [1, 1, 1], data = [1]\<rparr> = Inr 1"
    by code_simp
  show "EulerCharacteristic_seq \<lparr>shape = [2, 1, 1], data = [0, 1]\<rparr> = Inr (- 1)"
    by code_simp
qed

text \<open>The formula at the array of shape (2,1,1) holding 1, 1.\<close>

theorem euler_characteristic_formula_witness:
  "shape \<lparr>shape = [2, 1, 1], data = [1, 1]\<rparr> = [2, 1, 1]
   \<and> wf_ndarray \<lparr>shape = [2, 1, 1], data = [1, 1]\<rparr>
   \<and> EulerCharacteristic_seq \<lparr>shape = [2, 1, 1], data = [1, 1]\<rparr> =
       Inr (\<Sum>(x, y, z) \<in> {(x, y, z). x < 2 \<and> y < 1 \<and> z < 1
                 \<and> cell \<lparr>shape = [2, 1, 1], data = [1, 1]\<rparr> (x, y, z) = 1}.
              if even (x + y + z) then 1 else - 1)"
  using euler_characteristic_formula [of "\<lparr>shape = [2, 1, 1], data = [1, 1]\<rparr>" 2 1 1]
  by (simp add: wf_ndarray_def)

text \<open>
  C10. Only a cell that holds exactly 1 adds to the sum, whatever the other cells hold:
  the result is the sum of \<open>euler_weight\<close>, which is 0 at every cell that is not 1, and an
  array with no cell equal to 1 gives 0.
\<close>

theorem euler_counts_only_ones:
  assumes "shape A = [nx, ny, nz]" and "wf_ndarray A"
  shows "EulerCharacteristic_seq A =
           Inr (\<Sum>c \<in> {(x, y, z). x < nx \<and> y < ny \<and> z < nz}. euler_weight A c)
         \<and> ((\<forall>v\<in>set (data A). v \<noteq> 1) \<longrightarrow> EulerCharacteristic_seq A = Inr 0)"
proof (intro conjI impI)
  have "sum_list (map (euler_weight A) (cells3 nx ny nz))
      = sum (euler_weight A) {(x, y, z). x < nx \<and> y < ny \<and> z < nz}"
    using sum_list_distinct_conv_sum_set [OF distinct_cells3, of "euler_weight A" nx ny nz]
    by (simp add: set_cells3)
  then show "EulerCharacteristic_seq A =
           Inr (\<Sum>c \<in> {(x, y, z). x < nx \<and> y < ny \<and> z < nz}. euler_weight A c)"
    by (simp add: euler_sum_list [OF assms(1)])
next
  assume no1: "\<forall>v\<in>set (data A). v \<noteq> 1"
  have e: "{(x, y, z). x < nx \<and> y < ny \<and> z < nz \<and> cell A (x, y, z) = 1} = {}"
    using cell_in_set [OF assms] no1 by auto
  show "EulerCharacteristic_seq A = Inr 0"
    unfolding euler_sum [OF assms(1)] e by simp
qed

text \<open>An array holding 2 and 1/2 gives 0.\<close>

theorem euler_counts_only_ones_witness:
  "shape \<lparr>shape = [2, 1, 1], data = [2, 1 / 2]\<rparr> = [2, 1, 1]
   \<and> wf_ndarray \<lparr>shape = [2, 1, 1], data = [2, 1 / 2]\<rparr>
   \<and> EulerCharacteristic_seq \<lparr>shape = [2, 1, 1], data = [2, 1 / 2]\<rparr> = Inr 0"
  using euler_counts_only_ones [of "\<lparr>shape = [2, 1, 1], data = [2, 1 / 2]\<rparr>" 2 1 1, THEN conjunct2]
  by (simp add: wf_ndarray_def)

section \<open>Inputs of the wrong shape\<close>

text \<open>
  C5, as the specification states it, fails: on an array of shape (0,1,1)
  \<open>EulerCharacteristic_seq\<close> raises nothing and returns 0.
\<close>

theorem shape_error_counterexample:
  "wf_ndarray \<lparr>shape = [0, 1, 1], data = []\<rparr>
   \<and> EulerCharacteristic_seq \<lparr>shape = [0, 1, 1], data = []\<rparr> = Inr 0"
  by (simp add: wf_ndarray_def EulerCharacteristic_seq_def scan3_def xrange_def)

text \<open>
  C5, amended. An array whose rank is not 3 makes both functions raise ValueError (the
  shape does not unpack into three extents). An array of rank 3 with an axis of length 0
  makes \<open>CubeMap\<close> raise ValueError (a negative extent is passed to \<open>np.zeros\<close>), and
  \<open>EulerCharacteristic_seq\<close> returns 0 for it.
\<close>

theorem shape_failures:
  "(length (shape A) \<noteq> 3 \<longrightarrow>
      CubeMap A = Inl ValueError \<and> EulerCharacteristic_seq A = Inl ValueError)
   \<and> (length (shape A) = 3 \<and> 0 \<in> set (shape A) \<longrightarrow>
      CubeMap A = Inl ValueError \<and> EulerCharacteristic_seq A = Inr 0)"
proof (intro conjI)
  show "length (shape A) \<noteq> 3 \<longrightarrow>
      CubeMap A = Inl ValueError \<and> EulerCharacteristic_seq A = Inl ValueError"
    using not_rank3 by blast
  show "length (shape A) = 3 \<and> 0 \<in> set (shape A) \<longrightarrow>
      CubeMap A = Inl ValueError \<and> EulerCharacteristic_seq A = Inr 0"
  proof
    assume h: "length (shape A) = 3 \<and> 0 \<in> set (shape A)"
    then obtain nx ny nz where sh: "shape A = [nx, ny, nz]"
      using rank3_cases by blast
    with h have z: "nx = 0 \<or> ny = 0 \<or> nz = 0" by auto
    show "CubeMap A = Inl ValueError \<and> EulerCharacteristic_seq A = Inr 0"
      using CubeMap_zero_axis [OF sh z] Euler_zero_axis [OF sh z] by simp
  qed
qed

text \<open>Both cases, at an array of shape (2,2) and at one of shape (2,0,1).\<close>

theorem shape_failures_witness:
  "length (shape \<lparr>shape = [2, 2], data = [1, 1, 1, 1]\<rparr>) \<noteq> 3
   \<and> CubeMap \<lparr>shape = [2, 2], data = [1, 1, 1, 1]\<rparr> = Inl ValueError
   \<and> EulerCharacteristic_seq \<lparr>shape = [2, 2], data = [1, 1, 1, 1]\<rparr> = Inl ValueError
   \<and> length (shape \<lparr>shape = [2, 0, 1], data = []\<rparr>) = 3
   \<and> 0 \<in> set (shape \<lparr>shape = [2, 0, 1], data = []\<rparr>)
   \<and> CubeMap \<lparr>shape = [2, 0, 1], data = []\<rparr> = Inl ValueError
   \<and> EulerCharacteristic_seq \<lparr>shape = [2, 0, 1], data = []\<rparr> = Inr 0"
  using shape_failures [of "\<lparr>shape = [2, 2], data = [1, 1, 1, 1]\<rparr>"]
    shape_failures [of "\<lparr>shape = [2, 0, 1], data = []\<rparr>"]
  by simp

section \<open>The complex that CubeMap builds\<close>

text \<open>
  C6. For an input of shape \<open>(nx, ny, nz)\<close> with every extent at least 1, \<open>CubeMap\<close>
  returns an array of shape \<open>(2 nx - 1, 2 ny - 1, 2 nz - 1)\<close>.
\<close>

theorem output_shape:
  assumes "shape arr = [nx, ny, nz]" and "1 \<le> nx" and "1 \<le> ny" and "1 \<le> nz"
  shows "\<exists>cm. CubeMap arr = Inr cm \<and> shape cm = [2 * nx - 1, 2 * ny - 1, 2 * nz - 1]"
proof -
  from CubeMap_char [OF assms(1)] assms(2-4) obtain cm where
    cm: "CubeMap arr = Inr cm" "finished arr (lattice (nx, ny, nz)) cm" by auto
  then show ?thesis by (auto simp: finished_def grid_ok_def lattice_def)
qed

text \<open>The shape (3,1,1) for an input of shape (2,1,1).\<close>

theorem output_shape_witness:
  "shape \<lparr>shape = [2, 1, 1], data = [1, 0]\<rparr> = [2, 1, 1]
   \<and> (\<exists>cm. CubeMap \<lparr>shape = [2, 1, 1], data = [1, 0]\<rparr> = Inr cm \<and> shape cm = [3, 1, 1])"
  using output_shape [of "\<lparr>shape = [2, 1, 1], data = [1, 0]\<rparr>" 2 1 1] by simp

text \<open>
  C9. Whatever numbers the input holds, \<open>CubeMap\<close> returns an array in which every cell
  is 0 or 1.
\<close>

theorem output_is_binary:
  assumes "shape arr = [nx, ny, nz]" and "1 \<le> nx" and "1 \<le> ny" and "1 \<le> nz"
  shows "\<exists>cm. CubeMap arr = Inr cm \<and> (\<forall>v\<in>set (data cm). v = 0 \<or> v = 1)"
proof -
  from CubeMap_char [OF assms(1)] assms(2-4) obtain cm where
    cm: "CubeMap arr = Inr cm" "finished arr (lattice (nx, ny, nz)) cm" by auto
  then show ?thesis using finished_binary by blast
qed

text \<open>An input holding 5/2 and -3 gives the cells 1, 1, 1.\<close>

theorem output_is_binary_witness:
  "CubeMap \<lparr>shape = [2, 1, 1], data = [5 / 2, - 3]\<rparr> = Inr \<lparr>shape = [3, 1, 1], data = [1, 1, 1]\<rparr>
   \<and> (\<exists>cm. CubeMap \<lparr>shape = [2, 1, 1], data = [5 / 2, - 3]\<rparr> = Inr cm
         \<and> list_all (\<lambda>v. v = 0 \<or> v = 1) (data cm))"
proof -
  have "CubeMap \<lparr>shape = [2, 1, 1], data = [5 / 2, - 3]\<rparr> = Inr \<lparr>shape = [3, 1, 1], data = [1, 1, 1]\<rparr>"
    by code_simp
  then show ?thesis
    using output_is_binary [of "\<lparr>shape = [2, 1, 1], data = [5 / 2, - 3]\<rparr>" 2 1 1]
    by (simp add: list_all_iff)
qed

text \<open>
  C3. For a grid of 0/1 values, the cell \<open>[2i, 2j, 2k]\<close> of the complex equals the voxel
  \<open>[i, j, k]\<close> of the grid: the vertex pass puts it there, and no later pass sets an
  all-even cell whose voxel is 0.
\<close>

theorem vertex_placement:
  assumes "shape arr = [nx, ny, nz]" and "1 \<le> nx" and "1 \<le> ny" and "1 \<le> nz"
    and "wf_ndarray arr" and "\<forall>v\<in>set (data arr). v = 0 \<or> v = 1"
    and "i < nx" and "j < ny" and "k < nz"
  shows "\<exists>cm. CubeMap arr = Inr cm
           \<and> getitem cm (2 * int i, 2 * int j, 2 * int k) = getitem arr (int i, int j, int k)"
proof -
  from CubeMap_char [OF assms(1)] assms(2-4) obtain cm where
    cm: "CubeMap arr = Inr cm" "finished arr (lattice (nx, ny, nz)) cm" by auto
  have ic: "inside (nx, ny, nz) (i, j, k)" using assms(7-9) by (simp add: inside_def)
  have "cell arr (i, j, k) \<in> set (data arr)"
    by (rule cell_in_set [OF assms(1,5,7,8,9)])
  then have b: "cell arr (i, j, k) = 0 \<or> cell arr (i, j, k) = 1"
    using assms(6) by blast
  have "getitem cm (ints (twice (i, j, k))) = Inr (if cell arr (i, j, k) \<noteq> 0 then 1 else 0)"
    using getitem_finished [OF cm(2) inside_twice [OF ic]] present_twice [of arr i j k] by simp
  moreover have "getitem arr (int i, int j, int k) = Inr (cell arr (i, j, k))"
    by (rule getitem_in [OF assms(1,7,8,9)])
  ultimately show ?thesis
    using cm(1) b by (auto simp: ints_def twice_def)
qed

text \<open>The voxel 1 of the grid 0, 1 is found at cell 2 of the complex.\<close>

theorem vertex_placement_witness:
  "wf_ndarray \<lparr>shape = [2, 1, 1], data = [0, 1]\<rparr>
   \<and> (\<exists>cm. CubeMap \<lparr>shape = [2, 1, 1], data = [0, 1]\<rparr> = Inr cm
         \<and> getitem cm (2, 0, 0) = getitem \<lparr>shape = [2, 1, 1], data = [0, 1]\<rparr> (1, 0, 0))"
  using vertex_placement [of "\<lparr>shape = [2, 1, 1], data = [0, 1]\<rparr>" 2 1 1 1 0 0]
  by (simp add: wf_ndarray_def)

text \<open>
  C1. Closure: a cell of the complex that holds 1 has, along every axis on which its
  coordinate is odd, both neighbours one step away (taken modulo the extent, as the passes
  read them) equal to 1. For an edge cell, which has one odd coordinate, these are its two
  end vertices.
\<close>

theorem closure_invariant:
  assumes "shape arr = [nx, ny, nz]" and "1 \<le> nx" and "1 \<le> ny" and "1 \<le> nz"
    and "CubeMap arr = Inr cm"
    and "x < 2 * nx - 1" and "y < 2 * ny - 1" and "z < 2 * nz - 1"
    and "getitem cm (int x, int y, int z) = Inr 1"
    and "N = (2 * int nx - 1, 2 * int ny - 1, 2 * int nz - 1)"
  shows "(odd x \<longrightarrow> x_lo N cm (int x, int y, int z) = Inr 1 \<and> x_hi N cm (int x, int y, int z) = Inr 1)
       \<and> (odd y \<longrightarrow> y_lo N cm (int x, int y, int z) = Inr 1 \<and> y_hi N cm (int x, int y, int z) = Inr 1)
       \<and> (odd z \<longrightarrow> z_lo N cm (int x, int y, int z) = Inr 1 \<and> z_hi N cm (int x, int y, int z) = Inr 1)"
proof -
  let ?L = "lattice (nx, ny, nz)"
  have pos: "0 < nx" "0 < ny" "0 < nz" using assms(2-4) by simp_all
  note lf = lattice_facts [OF pos]
  have L: "?L = (2 * nx - 1, 2 * ny - 1, 2 * nz - 1)" by (simp add: lattice_def)
  have fin: "finished arr ?L cm" by (rule CubeMap_finished [OF assms(1) pos assms(5)])
  have g: "grid_ok (2 * nx - 1, 2 * ny - 1, 2 * nz - 1) cm"
    using fin by (simp add: finished_def L)
  have f3: "filled arr (Suc (Suc (Suc 0))) (2 * nx - 1, 2 * ny - 1, 2 * nz - 1) cm"
    using fin finished_iff [of arr ?L cm] by (simp add: L)
  have ic: "inside (2 * nx - 1, 2 * ny - 1, 2 * nz - 1) (x, y, z)"
    using assms(6-8) by (simp add: inside_def)
  have "getitem cm (int x, int y, int z) = Inr (if present arr (x, y, z) then 1 else 0)"
    using getitem_finished [OF fin, of "(x, y, z)"] ic by (simp add: ints_def L)
  then have p: "present arr (x, y, z)" using assms(9) by (simp split: if_splits)
  have N: "N = (int (2 * nx - 1), int (2 * ny - 1), int (2 * nz - 1))"
    using lf(4) assms(10) by (simp add: intN_def lattice_def)
  note nb = nb_cell [OF g assms(6-8), folded N]
  have d: "dim3 (x, y, z) \<le> Suc (Suc (Suc (Suc 0)))"
    using dim3_le3 [of "(x, y, z)"] by simp
  show ?thesis
    using axis_x_full [OF lf(1) f3 ic p _ d]
      axis_y_full [OF lf(2) f3 ic p _ d]
      axis_z_full [OF lf(3) f3 ic p _ d]
    by (simp add: nb)
qed

text \<open>The edge cell 1 of the complex 1, 1, 1 and its two neighbours.\<close>

theorem closure_invariant_witness:
  "CubeMap \<lparr>shape = [2, 1, 1], data = [1, 1]\<rparr> = Inr \<lparr>shape = [3, 1, 1], data = [1, 1, 1]\<rparr>
   \<and> getitem \<lparr>shape = [3, 1, 1], data = [1, 1, 1]\<rparr> (1, 0, 0) = Inr 1
   \<and> x_lo (3, 1, 1) \<lparr>shape = [3, 1, 1], data = [1, 1, 1]\<rparr> (1, 0, 0) = Inr 1
   \<and> x_hi (3, 1, 1) \<lparr>shape = [3, 1, 1], data = [1, 1, 1]\<rparr> (1, 0, 0) = Inr 1"
proof -
  have c: "CubeMap \<lparr>shape = [2, 1, 1], data = [1, 1]\<rparr> = Inr \<lparr>shape = [3, 1, 1], data = [1, 1, 1]\<rparr>"
    by code_simp
  have g: "getitem \<lparr>shape = [3, 1, 1], data = [1, 1, 1]\<rparr> (int 1, int 0, int 0) = Inr 1"
    by (simp add: getitem_def offset3_def axis_index_def ebind_def)
  show ?thesis
    using c g closure_invariant [OF _ _ _ _ c _ _ _ g refl, of 2 1 1]
    by simp
qed

text \<open>
  C8. An all-zero grid gives an all-zero complex; the Euler characteristic of that
  complex, and of the grid itself, is 0.
\<close>

theorem all_empty_grid:
  assumes "shape arr = [nx, ny, nz]" and "1 \<le> nx" and "1 \<le> ny" and "1 \<le> nz"
    and "wf_ndarray arr" and "\<forall>v\<in>set (data arr). v = 0"
  shows "\<exists>cm. CubeMap arr = Inr cm \<and> shape cm = [2 * nx - 1, 2 * ny - 1, 2 * nz - 1]
           \<and> data cm = replicate ((2 * nx - 1) * (2 * ny - 1) * (2 * nz - 1)) 0
           \<and> EulerCharacteristic_seq cm = Inr 0 \<and> EulerCharacteristic_seq arr = Inr 0"
proof -
  let ?N = "lattice (nx, ny, nz)"
  let ?z = "\<lparr>shape = [2 * nx - 1, 2 * ny - 1, 2 * nz - 1],
          data = replicate ((2 * nx - 1) * (2 * ny - 1) * (2 * nz - 1)) 0\<rparr>"
  from CubeMap_char [OF assms(1)] assms(2-4) obtain cm where
    cm: "CubeMap arr = Inr cm" "finished arr ?N cm" by auto
  have N: "?N = (2 * nx - 1, 2 * ny - 1, 2 * nz - 1)" by (simp add: lattice_def)
  have zs: "sound arr ?N ?z" unfolding N by (rule zeros_sound)
  have "finished arr ?N ?z"
    unfolding finished_def
  proof (intro conjI allI impI)
    show "grid_ok ?N ?z" using zs by (simp add: sound_def)
    fix c assume c: "inside ?N c"
    have "cell ?z c = 0"
      using zs c absent_all_zero [OF assms(1,5,6) c] unfolding sound_def by blast
    then show "cell ?z c = (if present arr c then 1 else 0)"
      using absent_all_zero [OF assms(1,5,6) c] by simp
  qed
  then have e: "cm = ?z" using finished_unique [OF cm(2)] by simp
  have wz: "wf_ndarray ?z" by (simp add: wf_ndarray_def mult.assoc)
  have "EulerCharacteristic_seq ?z = Inr 0"
    using euler_zero_of_no_ones [of ?z "2 * nx - 1" "2 * ny - 1" "2 * nz - 1"] wz by simp
  moreover have "\<forall>v\<in>set (data arr). v \<noteq> 1" using assms(6) by auto
  then have "EulerCharacteristic_seq arr = Inr 0"
    by (rule euler_zero_of_no_ones [OF assms(1,5)])
  ultimately show ?thesis using cm(1) e by simp
qed

text \<open>The grid 0, 0 of shape (2,1,1).\<close>

theorem all_empty_grid_witness:
  "wf_ndarray \<lparr>shape = [2, 1, 1], data = [0, 0]\<rparr>
   \<and> (\<exists>cm. CubeMap \<lparr>shape = [2, 1, 1], data = [0, 0]\<rparr> = Inr cm \<and> shape cm = [3, 1, 1]
          \<and> data cm = replicate 3 0
          \<and> EulerCharacteristic_seq cm = Inr 0
          \<and> EulerCharacteristic_seq \<lparr>shape = [2, 1, 1], data = [0, 0]\<rparr> = Inr 0)"
  using all_empty_grid [of "\<lparr>shape = [2, 1, 1], data = [0, 0]\<rparr>" 2 1 1]
  by (simp add: wf_ndarray_def)

section \<open>Reading the array in place or from a snapshot\<close>

text \<open>
  C4. The passes as the code runs them, each condition read from the array that the
  earlier iterations of the same pass have already written, return the same result as the
  passes that read a snapshot taken when the pass starts: with every pass on a snapshot,
  and with the edge and the face pass on a snapshot. This holds for every input, the ones
  that make them raise included. Moreover every single iteration of the edge pass and of
  the face pass updates its cell as it would from the snapshot: when the in-place pass,
  started on \<open>c1\<close>, has run its first \<open>n\<close> iterations and left the array \<open>s\<close>, the next
  iteration gives the same array whether its conditions are read from \<open>s\<close> or from
  \<open>c1\<close>.
\<close>

theorem gauss_seidel_same_as_jacobi:
  "CubeMap arr = CubeMap_jacobi arr \<and> CubeMap arr = CubeMap_jacobi_ef arr
   \<and> (shape arr = [nx, ny, nz] \<and> N = (2 * int nx - 1, 2 * int ny - 1, 2 * int nz - 1)
        \<and> order = cells3 (2 * nx - 1) (2 * ny - 1) (2 * nz - 1) \<and> n < length order \<longrightarrow>
      (\<forall>c1 s. vertices_done arr = Inr c1
          \<and> efold (\<lambda>d. edge_body N (ints d)) (take n order) c1 = Inr s \<longrightarrow>
          edge_body N (ints (order ! n)) s = edge_body_snap N c1 (ints (order ! n)) s)
      \<and> (\<forall>c2 s. edges_done arr = Inr c2
          \<and> efold (\<lambda>d. face_body N (ints d)) (take n order) c2 = Inr s \<longrightarrow>
          face_body N (ints (order ! n)) s = face_body_snap N c2 (ints (order ! n)) s))"
proof (intro conjI impI allI)
  have out: "CubeMap arr = CubeMap_jacobi arr \<and> CubeMap arr = CubeMap_jacobi_ef arr"
  proof (cases "length (shape arr) = 3")
    case False
    then show ?thesis
      using not_rank3 [of arr] CubeMap_jacobi_not_rank3 [of arr]
        CubeMap_jacobi_ef_not_rank3 [of arr] by simp
  next
    case True
    then obtain nx ny nz where sh: "shape arr = [nx, ny, nz]"
      using rank3_cases by blast
    show ?thesis
    proof (cases "nx = 0 \<or> ny = 0 \<or> nz = 0")
      case True
      then show ?thesis
        using CubeMap_zero_axis [OF sh] CubeMap_jacobi_zero_axis [OF sh]
          CubeMap_jacobi_ef_zero_axis [OF sh] by simp
    next
      case False
      then have pos: "0 < nx" "0 < ny" "0 < nz" by simp_all
      from CubeMap_char [OF sh pos] obtain a where
        a: "CubeMap arr = Inr a" "finished arr (lattice (nx, ny, nz)) a" by blast
      from CubeMap_jacobi_char [OF sh pos] obtain b where
        b: "CubeMap_jacobi arr = Inr b" "finished arr (lattice (nx, ny, nz)) b" by blast
      from CubeMap_jacobi_ef_char [OF sh pos] obtain c where
        c: "CubeMap_jacobi_ef arr = Inr c" "finished arr (lattice (nx, ny, nz)) c" by blast
      show ?thesis
        using a(1) b(1) c(1) finished_unique [OF a(2) b(2)] finished_unique [OF a(2) c(2)]
        by simp
    qed
  qed
  show "CubeMap arr = CubeMap_jacobi arr" using out by (rule conjunct1)
  show "CubeMap arr = CubeMap_jacobi_ef arr" using out by (rule conjunct2)
next
  fix c1 s
  assume h: "shape arr = [nx, ny, nz] \<and> N = (2 * int nx - 1, 2 * int ny - 1, 2 * int nz - 1)
        \<and> order = cells3 (2 * nx - 1) (2 * ny - 1) (2 * nz - 1) \<and> n < length order"
    and r: "vertices_done arr = Inr c1
          \<and> efold (\<lambda>d. edge_body N (ints d)) (take n order) c1 = Inr s"
  note vm = vertices_done_midway [of arr nx ny nz c1]
  have pos: "0 < nx" "0 < ny" "0 < nz" and m: "midway arr 0 (lattice (nx, ny, nz)) [] c1"
    using vm h r by simp_all
  note lf = lattice_facts [OF pos]
  have L: "lattice (nx, ny, nz) = (2 * nx - 1, 2 * ny - 1, 2 * nz - 1)"
    by (simp add: lattice_def)
  have N: "N = intN (lattice (nx, ny, nz))" using h lf(4) by simp
  show "edge_body N (ints (order ! n)) s = edge_body_snap N c1 (ints (order ! n)) s"
  proof -
    have o: "order = cells3 (2 * nx - 1) (2 * ny - 1) (2 * nz - 1)"
      and nl: "n < length (cells3 (2 * nx - 1) (2 * ny - 1) (2 * nz - 1))"
      using h by auto
    have run: "efold (\<lambda>d. edge_body (intN (lattice (nx, ny, nz))) (ints d))
        (take n (cells3 (2 * nx - 1) (2 * ny - 1) (2 * nz - 1))) c1 = Inr s"
      using r unfolding o N by simp
    show ?thesis
      unfolding o N by (rule edge_iteration(2) [OF lf(1,2,3) L m nl run])
  qed
next
  fix c2 s
  assume h: "shape arr = [nx, ny, nz] \<and> N = (2 * int nx - 1, 2 * int ny - 1, 2 * int nz - 1)
        \<and> order = cells3 (2 * nx - 1) (2 * ny - 1) (2 * nz - 1) \<and> n < length order"
    and r: "edges_done arr = Inr c2
          \<and> efold (\<lambda>d. face_body N (ints d)) (take n order) c2 = Inr s"
  note em = edges_done_midway [of arr nx ny nz c2]
  have pos: "0 < nx" "0 < ny" "0 < nz"
    and m: "midway arr (Suc 0) (lattice (nx, ny, nz)) [] c2"
    using em h r by simp_all
  note lf = lattice_facts [OF pos]
  have L: "lattice (nx, ny, nz) = (2 * nx - 1, 2 * ny - 1, 2 * nz - 1)"
    by (simp add: lattice_def)
  have N: "N = intN (lattice (nx, ny, nz))" using h lf(4) by simp
  show "face_body N (ints (order ! n)) s = face_body_snap N c2 (ints (order ! n)) s"
  proof -
    have o: "order = cells3 (2 * nx - 1) (2 * ny - 1) (2 * nz - 1)"
      and nl: "n < length (cells3 (2 * nx - 1) (2 * ny - 1) (2 * nz - 1))"
      using h by auto
    have run: "efold (\<lambda>d. face_body (intN (lattice (nx, ny, nz))) (ints d))
        (take n (cells3 (2 * nx - 1) (2 * ny - 1) (2 * nz - 1))) c2 = Inr s"
      using r unfolding o N by simp
    show ?thesis
      unfolding o N by (rule face_iteration [OF lf(1,2,3) L m nl run])
  qed
qed

text \<open>
  The grid of shape (2,2,1) holding only 1, at the fifth iteration of the edge pass, on
  cell (1,1,0): its neighbour (0,1,0) is 0 in the snapshot and already 1 in the array, and
  the iteration leaves the array unchanged either way.
\<close>

theorem gauss_seidel_same_as_jacobi_witness:
  "vertices_done \<lparr>shape = [2, 2, 1], data = [1, 1, 1, 1]\<rparr> = Inr \<lparr>shape = [3, 3, 1], data = [1, 0, 1, 0, 0, 0, 1, 0, 1]\<rparr>
   \<and> efold (\<lambda>d. edge_body (3, 3, 1) (ints d)) (take 4 (cells3 3 3 1)) \<lparr>shape = [3, 3, 1], data = [1, 0, 1, 0, 0, 0, 1, 0, 1]\<rparr>
       = Inr \<lparr>shape = [3, 3, 1], data = [1, 1, 1, 1, 0, 0, 1, 0, 1]\<rparr>
   \<and> cells3 3 3 1 ! 4 = (1, 1, 0)
   \<and> x_lo (3, 3, 1) \<lparr>shape = [3, 3, 1], data = [1, 1, 1, 1, 0, 0, 1, 0, 1]\<rparr> (1, 1, 0) = Inr 1
   \<and> x_lo (3, 3, 1) \<lparr>shape = [3, 3, 1], data = [1, 0, 1, 0, 0, 0, 1, 0, 1]\<rparr> (1, 1, 0) = Inr 0
   \<and> edge_body (3, 3, 1) (ints (cells3 3 3 1 ! 4)) \<lparr>shape = [3, 3, 1], data = [1, 1, 1, 1, 0, 0, 1, 0, 1]\<rparr>
       = edge_body_snap (3, 3, 1) \<lparr>shape = [3, 3, 1], data = [1, 0, 1, 0, 0, 0, 1, 0, 1]\<rparr> (ints (cells3 3 3 1 ! 4)) \<lparr>shape = [3, 3, 1], data = [1, 1, 1, 1, 0, 0, 1, 0, 1]\<rparr>
   \<and> CubeMap_jacobi \<lparr>shape = [2, 2, 1], data = [1, 1, 1, 1]\<rparr> = CubeMap \<lparr>shape = [2, 2, 1], data = [1, 1, 1, 1]\<rparr>"
proof -
  have v: "vertices_done \<lparr>shape = [2, 2, 1], data = [1, 1, 1, 1]\<rparr> = Inr \<lparr>shape = [3, 3, 1], data = [1, 0, 1, 0, 0, 0, 1, 0, 1]\<rparr>"
    by code_simp
  have r: "efold (\<lambda>d. edge_body (3, 3, 1) (ints d)) (take 4 (cells3 3 3 1)) \<lparr>shape = [3, 3, 1], data = [1, 0, 1, 0, 0, 0, 1, 0, 1]\<rparr>
       = Inr \<lparr>shape = [3, 3, 1], data = [1, 1, 1, 1, 0, 0, 1, 0, 1]\<rparr>"
    by code_simp
  have c: "cells3 3 3 1 ! 4 = (1, 1, 0)"
    by code_simp
  have x1: "x_lo (3, 3, 1) \<lparr>shape = [3, 3, 1], data = [1, 1, 1, 1, 0, 0, 1, 0, 1]\<rparr> (1, 1, 0) = Inr 1"
    by code_simp
  have x0: "x_lo (3, 3, 1) \<lparr>shape = [3, 3, 1], data = [1, 0, 1, 0, 0, 0, 1, 0, 1]\<rparr> (1, 1, 0) = Inr 0"
    by code_simp
  have hyp: "shape \<lparr>shape = [2, 2, 1], data = [1, 1, 1, 1]\<rparr> = [2, 2, 1]
      \<and> (3, 3, 1) = (2 * int 2 - 1, 2 * int 2 - 1, 2 * int 1 - 1)
      \<and> cells3 3 3 1 = cells3 (2 * 2 - 1) (2 * 2 - 1) (2 * 1 - 1) \<and> 4 < length (cells3 3 3 1)"
    by (simp add: cells3_def)
  note t = gauss_seidel_same_as_jacobi [where arr = "\<lparr>shape = [2, 2, 1], data = [1, 1, 1, 1]\<rparr>" and nx = 2 and ny = 2 and nz = 1
      and N = "(3, 3, 1)" and order = "cells3 3 3 1" and n = 4]
  have e: "edge_body (3, 3, 1) (ints (cells3 3 3 1 ! 4)) \<lparr>shape = [3, 3, 1], data = [1, 1, 1, 1, 0, 0, 1, 0, 1]\<rparr>
       = edge_body_snap (3, 3, 1) \<lparr>shape = [3, 3, 1], data = [1, 0, 1, 0, 0, 0, 1, 0, 1]\<rparr> (ints (cells3 3 3 1 ! 4)) \<lparr>shape = [3, 3, 1], data = [1, 1, 1, 1, 0, 0, 1, 0, 1]\<rparr>"
    using t [THEN conjunct2, THEN conjunct2, THEN mp, OF hyp, THEN conjunct1] v r by blast
  have j: "CubeMap_jacobi \<lparr>shape = [2, 2, 1], data = [1, 1, 1, 1]\<rparr> = CubeMap \<lparr>shape = [2, 2, 1], data = [1, 1, 1, 1]\<rparr>"
    using t [THEN conjunct1] by (rule sym)
  show ?thesis using v r c x1 x0 e j by (intro conjI)
qed

section \<open>Test vectors\<close>

text \<open>
  C7. The grid of shape (2,1,1) with both voxels 1 gives the complex of shape (3,1,1)
  with cells 1, 1, 1 (vertex, edge, vertex), and the Euler characteristic of that
  complex is 1.
\<close>

theorem two_adjacent_voxels:
  "CubeMap \<lparr>shape = [2, 1, 1], data = [1, 1]\<rparr> = Inr \<lparr>shape = [3, 1, 1], data = [1, 1, 1]\<rparr>
   \<and> EulerCharacteristic_seq \<lparr>shape = [3, 1, 1], data = [1, 1, 1]\<rparr> = Inr 1"
  by code_simp

end
